theory Spec2Isabelle
  imports Main "HOL-Library.Word"
begin

section \<open>Block resolution of zfs-win: \<^verbatim>\<open>src/zfs-win/BlockReader.cpp\<close>\<close>

text \<open>
  The theory embeds the three classes of \<^verbatim>\<open>BlockReader.cpp\<close>: \<^verbatim>\<open>BlockReader\<close>
  (\<^verbatim>\<open>Insert\<close>, \<^verbatim>\<open>Read\<close>, \<^verbatim>\<open>Verify\<close>, \<^verbatim>\<open>Decompress\<close>), \<^verbatim>\<open>BlockStream\<close>
  (\<^verbatim>\<open>ReadNext\<close>, \<^verbatim>\<open>ReadToEnd\<close>) and \<^verbatim>\<open>BlockFile\<close> (constructor, \<^verbatim>\<open>Read\<close>).

  Conventions.
  \<^item> A \<^verbatim>\<open>std::vector<uint8_t>\<close> is a list of bytes; a reference parameter is passed in and
    returned.
  \<^item> \<^verbatim>\<open>size_t\<close> and \<^verbatim>\<open>uint64_t\<close> are natural numbers below \<open>2 ^ 64\<close> (a 64-bit build). The
    sums, differences and shifts that the source forms from descriptor fields and from the
    arguments of \<^verbatim>\<open>BlockFile::Read\<close> are written with their wrap-around. A sum that is the
    size of a vector or a position in a buffer (\<^verbatim>\<open>i + buff.size()\<close>, \<^verbatim>\<open>p += n\<close>) is written as
    it is: a vector does not reach \<open>2 ^ 64\<close> bytes.
  \<^item> A run ends in a value \<open>Inr r\<close> or in a fault \<open>Inl f\<close>: a failed \<^verbatim>\<open>ASSERT\<close> of a build
    that checks assertions, \<^verbatim>\<open>front()\<close> of an empty \<^verbatim>\<open>std::list\<close>, a raw copy that leaves its
    buffer, or the use of a pointer that was never set.
  \<^item> Every call of \<^verbatim>\<open>VirtualDevice::Read\<close> is appended to a log that is passed in and
    returned, so that "no device I/O" is "the log is unchanged".
  \<^item> The loops that expand indirect blocks may run forever (a block can name itself as its
    child); they take fuel and return \<open>None\<close> when it runs out.
\<close>

subsection \<open>Data\<close>

type_synonym byte = "8 word"
type_synonym bytes = "byte list"
type_synonym cksum_t = "256 word"

text \<open>One entry of the device log: device id, length and byte offset of a read.\<close>

type_synonym io = "nat \<times> nat \<times> nat"

datatype fault = AssertionFailed | FrontOfEmptyList | BufferOverrun | UninitialisedPointer

text \<open>
  The checksum and compression codes are \<^verbatim>\<open>uint8_t\<close> fields that the source switches on by
  the names of \<^verbatim>\<open>zfs.h\<close> (not among the sources). Each name a \<^verbatim>\<open>case\<close> label mentions is a
  constructor; every other value of the byte is \<open>ZIO_CHECKSUM_OTHER\<close>, \<open>ZIO_COMPRESS_OTHER\<close>
  (the \<^verbatim>\<open>default\<close> label).
\<close>

datatype zio_checksum =
    ZIO_CHECKSUM_OFF
  | ZIO_CHECKSUM_ON
  | ZIO_CHECKSUM_ZILOG
  | ZIO_CHECKSUM_FLETCHER_2
  | ZIO_CHECKSUM_ZILOG2
  | ZIO_CHECKSUM_FLETCHER_4
  | ZIO_CHECKSUM_LABEL
  | ZIO_CHECKSUM_GANG_HEADER
  | ZIO_CHECKSUM_SHA256
  | ZIO_CHECKSUM_OTHER byte

datatype zio_compress =
    ZIO_COMPRESS_ON
  | ZIO_COMPRESS_LZJB
  | ZIO_COMPRESS_OFF
  | ZIO_COMPRESS_EMPTY
  | ZIO_COMPRESS_GZIP_1
  | ZIO_COMPRESS_GZIP_2
  | ZIO_COMPRESS_GZIP_3
  | ZIO_COMPRESS_GZIP_4
  | ZIO_COMPRESS_GZIP_5
  | ZIO_COMPRESS_GZIP_6
  | ZIO_COMPRESS_GZIP_7
  | ZIO_COMPRESS_GZIP_8
  | ZIO_COMPRESS_GZIP_9
  | ZIO_COMPRESS_ZLE
  | ZIO_COMPRESS_OTHER byte

record dva_t =
  dva_vdev :: nat
  dva_offset :: nat
  dva_gang :: bool

text \<open>
  \<^verbatim>\<open>blkptr_t\<close>: the fields the source reads. \<open>blk_dva\<close> is the array \<^verbatim>\<open>blk_dva[3]\<close>; the sizes
  are stored as sectors minus one.
\<close>

record blkptr_t =
  blk_dva :: "dva_t \<times> dva_t \<times> dva_t"
  blk_psize :: nat
  blk_lsize :: nat
  blk_type :: nat
  blk_lvl :: nat
  blk_cksum_type :: zio_checksum
  blk_comp_type :: zio_compress
  blk_cksum :: cksum_t

text \<open>
  Modelled from the spec: the constant \<^verbatim>\<open>DMU_OT_NONE\<close> of \<^verbatim>\<open>zfs.h\<close>, which is not among the
  sources ("objectType (0 = NONE/unused sentinel)").
\<close>

definition DMU_OT_NONE :: nat where
  "DMU_OT_NONE = 0"

text \<open>
  A \<^verbatim>\<open>VirtualDevice\<close>: its \<^verbatim>\<open>id\<close> and what \<^verbatim>\<open>Read(buffer, size, offset)\<close> leaves in the
  buffer. The status the call returns is ignored by its only caller (line 98).
\<close>

record VirtualDevice =
  vdev_id :: nat
  vdev_Read :: "nat \<Rightarrow> nat \<Rightarrow> bytes"

text \<open>
  The pool and everything else the file uses without defining it:
  \<^item> \<open>m_vdevs\<close>: \<^verbatim>\<open>m_pool->m_vdevs\<close>;
  \<^item> \<open>asserts\<close>: whether the build checks \<^verbatim>\<open>ASSERT\<close> (the macro of \<^verbatim>\<open>stdafx.h\<close>);
  \<^item> the checksum functions of \<^verbatim>\<open>Hash.h\<close>, each giving the checksum of a buffer;
  \<^item> the decompressors of \<^verbatim>\<open>Compress.h\<close>, each giving the bytes it writes at the
    destination pointer, from the source bytes and the destination length it is told
    (\<open>zle_decompress\<close> also from its last argument);
  \<^item> \<open>sizeof_blkptr_t\<close> and \<open>blkptr_of_bytes\<close>: the size of a \<^verbatim>\<open>blkptr_t\<close> and the record that
    the cast \<^verbatim>\<open>(blkptr_t*)buff.data()\<close> reads from that many bytes.
\<close>

record env =
  m_vdevs :: "VirtualDevice list"
  asserts :: bool
  fletcher_2_native :: "bytes \<Rightarrow> cksum_t"
  fletcher_4_native :: "bytes \<Rightarrow> cksum_t"
  sha256 :: "bytes \<Rightarrow> cksum_t"
  lzjb_decompress :: "bytes \<Rightarrow> nat \<Rightarrow> bytes"
  gzip_decompress :: "bytes \<Rightarrow> nat \<Rightarrow> bytes"
  zle_decompress :: "bytes \<Rightarrow> nat \<Rightarrow> nat \<Rightarrow> bytes"
  sizeof_blkptr_t :: nat
  blkptr_of_bytes :: "bytes \<Rightarrow> blkptr_t"

subsection \<open>Machine arithmetic and raw memory\<close>

definition add64 :: "nat \<Rightarrow> nat \<Rightarrow> nat" where
  "add64 a b = (a + b) mod 2 ^ 64"

definition sub64 :: "nat \<Rightarrow> nat \<Rightarrow> nat" where
  "sub64 a b = (a + 2 ^ 64 - b mod 2 ^ 64) mod 2 ^ 64"

definition shl9 :: "nat \<Rightarrow> nat" where
  "shl9 a = (a * 512) mod 2 ^ 64"

text \<open>\<^verbatim>\<open>((size_t)bp->lsize + 1) << 9\<close> and the same for \<^verbatim>\<open>psize\<close>.\<close>

definition size_bytes :: "nat \<Rightarrow> nat" where
  "size_bytes sectors_minus_one = shl9 (add64 sectors_minus_one 1)"

definition ASSERT :: "env \<Rightarrow> bool \<Rightarrow> fault + unit" where
  "ASSERT e c = (if asserts e \<and> \<not> c then Inl AssertionFailed else Inr ())"

text \<open>\<^verbatim>\<open>std::vector::resize(n)\<close>: cut to \<open>n\<close> elements, or zeros appended up to \<open>n\<close>.\<close>

definition resize :: "bytes \<Rightarrow> nat \<Rightarrow> bytes" where
  "resize v n = take n v @ replicate (n - length v) 0"

text \<open>
  \<open>poke dst i xs\<close>: the bytes \<open>xs\<close> written at \<^verbatim>\<open>dst.data() + i\<close>. \<open>peek src i n\<close>: \<open>n\<close> bytes
  read at \<^verbatim>\<open>src.data() + i\<close>. Neither call of the source checks the buffer's size: a copy
  that touches a byte outside the buffer is a fault. A copy of no bytes touches none.
\<close>

definition poke :: "bytes \<Rightarrow> nat \<Rightarrow> bytes \<Rightarrow> fault + bytes" where
  "poke dst i xs =
     (if xs = [] then Inr dst
      else if i + length xs \<le> length dst
      then Inr (take i dst @ xs @ drop (i + length xs) dst)
      else Inl BufferOverrun)"

definition peek :: "bytes \<Rightarrow> nat \<Rightarrow> nat \<Rightarrow> fault + bytes" where
  "peek src i n =
     (if n = 0 then Inr []
      else if i + n \<le> length src then Inr (take n (drop i src))
      else Inl BufferOverrun)"

subsection \<open>BlockReader\<close>

text \<open>
  \<^verbatim>\<open>Insert\<close> (lines 43-69). \<open>Insert_loop\<close> is either \<^verbatim>\<open>for\<close> loop: it pushes the elements whose
  type is not \<^verbatim>\<open>DMU_OT_NONE\<close> at the back of \<open>l\<close>. The array \<open>bp\<close> is a list, \<open>count\<close> its length.
\<close>

fun Insert_loop :: "blkptr_t list \<Rightarrow> blkptr_t list \<Rightarrow> blkptr_t list" where
  "Insert_loop l [] = l"
| "Insert_loop l (b # bs) =
     Insert_loop (if blk_type b \<noteq> DMU_OT_NONE then l @ [b] else l) bs"

definition Insert :: "blkptr_t list \<Rightarrow> blkptr_t list \<Rightarrow> blkptr_t list" where
  "Insert bpl bp =
     (if bpl = [] then Insert_loop bpl bp
      else (let l = Insert_loop [] bp in l @ bpl))"

text \<open>The constructor \<^verbatim>\<open>BlockReader(pool, bp, count)\<close> (lines 29-33), on the empty list.\<close>

definition BlockReader :: "blkptr_t list \<Rightarrow> blkptr_t list" where
  "BlockReader bp = Insert [] bp"

text \<open>
  The argument of the two calls \<^verbatim>\<open>Insert((blkptr_t*)buff.data(), buff.size() / sizeof(blkptr_t))\<close>
  (lines 211, 272): element \<open>k\<close> of the array is read from the bytes
  \<open>k * sizeof(blkptr_t) ..< (k + 1) * sizeof(blkptr_t)\<close> of the buffer.
\<close>

definition blkptrs :: "env \<Rightarrow> bytes \<Rightarrow> blkptr_t list" where
  "blkptrs e buff =
     map (\<lambda>k. blkptr_of_bytes e (take (sizeof_blkptr_t e) (drop (k * sizeof_blkptr_t e) buff)))
       [0 ..< length buff div sizeof_blkptr_t e]"

text \<open>\<^verbatim>\<open>Verify\<close> (lines 113-145). \<open>compare\<close> is its last two statements.\<close>

definition compare :: "env \<Rightarrow> cksum_t \<Rightarrow> cksum_t \<Rightarrow> fault + bool" where
  "compare e cksum c =
     (case ASSERT e (cksum = c) of Inl f \<Rightarrow> Inl f | Inr _ \<Rightarrow> Inr (cksum = c))"

fun Verify :: "env \<Rightarrow> bytes \<Rightarrow> zio_checksum \<Rightarrow> cksum_t \<Rightarrow> fault + bool" where
  "Verify e buff ZIO_CHECKSUM_OFF cksum = Inr True"
| "Verify e buff ZIO_CHECKSUM_ON cksum = compare e cksum (fletcher_2_native e buff)"
| "Verify e buff ZIO_CHECKSUM_ZILOG cksum = compare e cksum (fletcher_2_native e buff)"
| "Verify e buff ZIO_CHECKSUM_FLETCHER_2 cksum = compare e cksum (fletcher_2_native e buff)"
| "Verify e buff ZIO_CHECKSUM_ZILOG2 cksum = compare e cksum (fletcher_4_native e buff)"
| "Verify e buff ZIO_CHECKSUM_FLETCHER_4 cksum = compare e cksum (fletcher_4_native e buff)"
| "Verify e buff ZIO_CHECKSUM_LABEL cksum = compare e cksum (sha256 e buff)"
| "Verify e buff ZIO_CHECKSUM_GANG_HEADER cksum = compare e cksum (sha256 e buff)"
| "Verify e buff ZIO_CHECKSUM_SHA256 cksum = compare e cksum (sha256 e buff)"
| "Verify e buff (ZIO_CHECKSUM_OTHER v) cksum =
     (case ASSERT e False of Inl f \<Rightarrow> Inl f | Inr _ \<Rightarrow> Inr False)"

text \<open>
  \<^verbatim>\<open>Decompress\<close> (lines 147-180) returns its status and the new \<open>dst\<close>. \<^verbatim>\<open>dst.swap(src)\<close> also
  leaves the old \<open>dst\<close> in \<open>src\<close>, which the only caller drops. Only the LZJB branch resizes
  \<open>dst\<close>; the gzip and ZLE branches write at \<^verbatim>\<open>dst.data()\<close> as it is.
\<close>

definition gzip_into :: "env \<Rightarrow> bytes \<Rightarrow> bytes \<Rightarrow> nat \<Rightarrow> fault + bool \<times> bytes" where
  "gzip_into e src dst lsize =
     (case poke dst 0 (gzip_decompress e src lsize) of
        Inl f \<Rightarrow> Inl f
      | Inr dst' \<Rightarrow> Inr (True, dst'))"

definition lzjb_into :: "env \<Rightarrow> bytes \<Rightarrow> bytes \<Rightarrow> nat \<Rightarrow> fault + bool \<times> bytes" where
  "lzjb_into e src dst lsize =
     (case poke (resize dst lsize) 0 (lzjb_decompress e src lsize) of
        Inl f \<Rightarrow> Inl f
      | Inr dst' \<Rightarrow> Inr (True, dst'))"

fun Decompress :: "env \<Rightarrow> bytes \<Rightarrow> bytes \<Rightarrow> nat \<Rightarrow> zio_compress \<Rightarrow> fault + bool \<times> bytes" where
  "Decompress e src dst lsize ZIO_COMPRESS_ON = lzjb_into e src dst lsize"
| "Decompress e src dst lsize ZIO_COMPRESS_LZJB = lzjb_into e src dst lsize"
| "Decompress e src dst lsize ZIO_COMPRESS_OFF = Inr (True, src)"
| "Decompress e src dst lsize ZIO_COMPRESS_EMPTY = Inr (True, src)"
| "Decompress e src dst lsize ZIO_COMPRESS_GZIP_1 = gzip_into e src dst lsize"
| "Decompress e src dst lsize ZIO_COMPRESS_GZIP_2 = gzip_into e src dst lsize"
| "Decompress e src dst lsize ZIO_COMPRESS_GZIP_3 = gzip_into e src dst lsize"
| "Decompress e src dst lsize ZIO_COMPRESS_GZIP_4 = gzip_into e src dst lsize"
| "Decompress e src dst lsize ZIO_COMPRESS_GZIP_5 = gzip_into e src dst lsize"
| "Decompress e src dst lsize ZIO_COMPRESS_GZIP_6 = gzip_into e src dst lsize"
| "Decompress e src dst lsize ZIO_COMPRESS_GZIP_7 = gzip_into e src dst lsize"
| "Decompress e src dst lsize ZIO_COMPRESS_GZIP_8 = gzip_into e src dst lsize"
| "Decompress e src dst lsize ZIO_COMPRESS_GZIP_9 = gzip_into e src dst lsize"
| "Decompress e src dst lsize ZIO_COMPRESS_ZLE =
     (case poke dst 0 (zle_decompress e src lsize 64) of
        Inl f \<Rightarrow> Inl f
      | Inr dst' \<Rightarrow> Inr (True, dst'))"
| "Decompress e src dst lsize (ZIO_COMPRESS_OTHER v) =
     (case ASSERT e False of Inl f \<Rightarrow> Inl f | Inr _ \<Rightarrow> Inr (False, dst))"

text \<open>
  \<^verbatim>\<open>Read\<close> (lines 71-111). \<open>Read_vdevs\<close> is the inner loop over \<^verbatim>\<open>m_pool->m_vdevs\<close> for one
  address (lines 79-107), \<open>Read_dvas\<close> the outer loop over the addresses (lines 73-108). The
  result is the status, the new \<open>dst\<close> and the new device log.
\<close>

fun Read_vdevs ::
  "env \<Rightarrow> blkptr_t \<Rightarrow> dva_t \<Rightarrow> VirtualDevice list \<Rightarrow> bytes \<Rightarrow> io list
     \<Rightarrow> fault + bool \<times> bytes \<times> io list" where
  "Read_vdevs e bp addr [] dst log = Inr (False, dst, log)"
| "Read_vdevs e bp addr (vdev # vs) dst log =
     (if vdev_id vdev \<noteq> dva_vdev addr then Read_vdevs e bp addr vs dst log
      else
        let psize = size_bytes (blk_psize bp);
            lsize = size_bytes (blk_lsize bp);
            src = vdev_Read vdev psize (shl9 (dva_offset addr));
            log' = log @ [(vdev_id vdev, psize, shl9 (dva_offset addr))]
        in case Verify e src (blk_cksum_type bp) (blk_cksum bp) of
             Inl f \<Rightarrow> Inl f
           | Inr False \<Rightarrow> Read_vdevs e bp addr vs dst log'
           | Inr True \<Rightarrow>
               (case Decompress e src dst lsize (blk_comp_type bp) of
                  Inl f \<Rightarrow> Inl f
                | Inr (True, dst') \<Rightarrow> Inr (True, dst', log')
                | Inr (False, dst') \<Rightarrow> Read_vdevs e bp addr vs dst' log'))"

fun Read_dvas ::
  "env \<Rightarrow> blkptr_t \<Rightarrow> dva_t list \<Rightarrow> bytes \<Rightarrow> io list \<Rightarrow> fault + bool \<times> bytes \<times> io list" where
  "Read_dvas e bp [] dst log = Inr (False, dst, log)"
| "Read_dvas e bp (addr # as) dst log =
     (case ASSERT e (dva_gang addr = False) of
        Inl f \<Rightarrow> Inl f
      | Inr _ \<Rightarrow>
          (case Read_vdevs e bp addr (m_vdevs e) dst log of
             Inl f \<Rightarrow> Inl f
           | Inr (True, dst', log') \<Rightarrow> Inr (True, dst', log')
           | Inr (False, dst', log') \<Rightarrow> Read_dvas e bp as dst' log'))"

definition Read :: "env \<Rightarrow> bytes \<Rightarrow> blkptr_t \<Rightarrow> io list \<Rightarrow> fault + bool \<times> bytes \<times> io list" where
  "Read e dst bp log =
     (case blk_dva bp of (a0, a1, a2) \<Rightarrow> Read_dvas e bp [a0, a1, a2] dst log)"

text \<open>
  Modelled from the spec: \<^verbatim>\<open>Pool::Read(buff, bp, 1)\<close> (called at line 325) belongs to
  \<^verbatim>\<open>Pool.cpp\<close>, which is not among the sources. The spec gives the pool "a single-pointer
  resolve primitive with the same contract as this core's own resolution, usable
  interchangeably by cache-refill paths".
\<close>

definition Pool_Read :: "env \<Rightarrow> bytes \<Rightarrow> blkptr_t \<Rightarrow> io list \<Rightarrow> fault + bool \<times> bytes \<times> io list" where
  "Pool_Read e dst bp log = Read e dst bp log"

subsection \<open>BlockStream\<close>

text \<open>The constructor \<^verbatim>\<open>BlockStream(pool, bp, count)\<close> (lines 184-187) is that of its base.\<close>

definition BlockStream :: "blkptr_t list \<Rightarrow> blkptr_t list" where
  "BlockStream bp = BlockReader bp"

text \<open>
  \<^verbatim>\<open>ReadNext\<close> (lines 193-219). \<open>ReadNext_loop\<close> is the \<^verbatim>\<open>while\<close> loop of lines 204-216 together
  with the final \<^verbatim>\<open>return Read(buff, bp.get())\<close>; \<open>bp\<close> is the descriptor popped last and
  \<open>m_bpl\<close> the list without it. The result is the status, \<open>buff\<close>, \<open>m_bpl\<close> and the log.
\<close>

fun ReadNext_loop ::
  "nat \<Rightarrow> env \<Rightarrow> blkptr_t \<Rightarrow> bytes \<Rightarrow> blkptr_t list \<Rightarrow> io list
     \<Rightarrow> (fault + bool \<times> bytes \<times> blkptr_t list \<times> io list) option" where
  "ReadNext_loop 0 e bp buff bpl log = None"
| "ReadNext_loop (Suc n) e bp buff bpl log =
     (if blk_lvl bp > 0 then
        (case Read e buff bp log of
           Inl f \<Rightarrow> Some (Inl f)
         | Inr (False, buff', log') \<Rightarrow> Some (Inr (False, buff', bpl, log'))
         | Inr (True, buff', log') \<Rightarrow>
             (case Insert bpl (blkptrs e buff') of
                [] \<Rightarrow> Some (Inl FrontOfEmptyList)
              | bp' # bpl' \<Rightarrow> ReadNext_loop n e bp' buff' bpl' log'))
      else
        (case Read e buff bp log of
           Inl f \<Rightarrow> Some (Inl f)
         | Inr (ok, buff', log') \<Rightarrow> Some (Inr (ok, buff', bpl, log'))))"

definition ReadNext ::
  "nat \<Rightarrow> env \<Rightarrow> blkptr_t list \<Rightarrow> bytes \<Rightarrow> io list
     \<Rightarrow> (fault + bool \<times> bytes \<times> blkptr_t list \<times> io list) option" where
  "ReadNext fuel e bpl buff log =
     (case bpl of
        [] \<Rightarrow> Some (Inr (False, buff, bpl, log))
      | bp # rest \<Rightarrow> ReadNext_loop fuel e bp buff rest log)"

text \<open>
  \<^verbatim>\<open>ReadToEnd\<close> (lines 221-244). \<open>ReadToEnd_loop\<close> is the \<^verbatim>\<open>while\<close> loop with its locals \<open>buff\<close>
  and \<open>i\<close>; the function starts it on the cleared \<open>dst\<close>. The result is the status, \<open>dst\<close>,
  \<open>m_bpl\<close> and the log.
\<close>

fun ReadToEnd_loop ::
  "nat \<Rightarrow> env \<Rightarrow> blkptr_t list \<Rightarrow> bytes \<Rightarrow> bytes \<Rightarrow> nat \<Rightarrow> io list
     \<Rightarrow> (fault + bool \<times> bytes \<times> blkptr_t list \<times> io list) option" where
  "ReadToEnd_loop 0 e bpl buff dst i log = None"
| "ReadToEnd_loop (Suc n) e bpl buff dst i log =
     (case ReadNext (Suc n) e bpl buff log of
        None \<Rightarrow> None
      | Some (Inl f) \<Rightarrow> Some (Inl f)
      | Some (Inr (False, buff', bpl', log')) \<Rightarrow> Some (Inr (True, dst, bpl', log'))
      | Some (Inr (True, buff', bpl', log')) \<Rightarrow>
          (let dst1 = (if i + length buff' > length dst
                       then resize dst (i + length buff') else dst)
           in case poke dst1 i buff' of
                Inl f \<Rightarrow> Some (Inl f)
              | Inr dst2 \<Rightarrow> ReadToEnd_loop n e bpl' buff' dst2 (i + length buff') log'))"

definition ReadToEnd ::
  "nat \<Rightarrow> env \<Rightarrow> blkptr_t list \<Rightarrow> io list
     \<Rightarrow> (fault + bool \<times> bytes \<times> blkptr_t list \<times> io list) option" where
  "ReadToEnd fuel e bpl log = ReadToEnd_loop fuel e bpl [] [] 0 log"

subsection \<open>BlockFile\<close>

text \<open>
  \<^verbatim>\<open>m_cache.bp\<close> points to an element of \<open>m_bpl\<close>. The elements are separate heap objects that
  live as long as the file, so the pointer is the element's position: \<open>Leaf k\<close>. It is \<open>Null\<close>
  after a construction that ran to its end, and was never set (\<open>Uninitialised\<close>) after one
  that returned early.
\<close>

datatype cache_ptr = Uninitialised | Null | Leaf nat

record BlockFile =
  m_bpl :: "blkptr_t list"
  m_psize :: nat
  m_lsize :: nat
  m_cache_bp :: cache_ptr
  m_cache_buff :: bytes

text \<open>
  The constructor (lines 248-291). \<open>BlockFile_descend\<close> is the inner \<^verbatim>\<open>while\<close> loop (lines
  261-277): it ends in the leaf reached, or in nothing when a \<^verbatim>\<open>Read\<close> failed (line 269).
  \<open>BlockFile_loop\<close> is the outer loop (lines 255-283) with the statements after it; the early
  \<^verbatim>\<open>return\<close> leaves the members as they are at that moment.
\<close>

fun BlockFile_descend ::
  "nat \<Rightarrow> env \<Rightarrow> blkptr_t \<Rightarrow> blkptr_t list \<Rightarrow> io list
     \<Rightarrow> (fault + blkptr_t option \<times> blkptr_t list \<times> io list) option" where
  "BlockFile_descend 0 e bp bpl log = None"
| "BlockFile_descend (Suc n) e bp bpl log =
     (if blk_lvl bp > 0 then
        (case Read e [] bp log of
           Inl f \<Rightarrow> Some (Inl f)
         | Inr (False, buff, log') \<Rightarrow>
             (case ASSERT e False of
                Inl f \<Rightarrow> Some (Inl f)
              | Inr _ \<Rightarrow> Some (Inr (None, bpl, log')))
         | Inr (True, buff, log') \<Rightarrow>
             (case Insert bpl (blkptrs e buff) of
                [] \<Rightarrow> Some (Inl FrontOfEmptyList)
              | bp' # bpl' \<Rightarrow> BlockFile_descend n e bp' bpl' log'))
      else Some (Inr (Some bp, bpl, log)))"

fun BlockFile_loop ::
  "nat \<Rightarrow> env \<Rightarrow> blkptr_t list \<Rightarrow> blkptr_t list \<Rightarrow> nat \<Rightarrow> nat \<Rightarrow> io list
     \<Rightarrow> (fault + BlockFile \<times> io list) option" where
  "BlockFile_loop 0 e bpl l psize lsize log = None"
| "BlockFile_loop (Suc n) e bpl l psize lsize log =
     (case bpl of
        [] \<Rightarrow>
          Some (Inr (\<lparr>m_bpl = l, m_psize = shl9 psize, m_lsize = shl9 lsize,
                      m_cache_bp = Null, m_cache_buff = []\<rparr>, log))
      | bp # rest \<Rightarrow>
          (case BlockFile_descend (Suc n) e bp rest log of
             None \<Rightarrow> None
           | Some (Inl f) \<Rightarrow> Some (Inl f)
           | Some (Inr (None, bpl', log')) \<Rightarrow>
               Some (Inr (\<lparr>m_bpl = bpl', m_psize = psize, m_lsize = lsize,
                           m_cache_bp = Uninitialised, m_cache_buff = []\<rparr>, log'))
           | Some (Inr (Some leaf, bpl', log')) \<Rightarrow>
               BlockFile_loop n e bpl' (l @ [leaf])
                 (add64 psize (blk_psize leaf + 1)) (add64 lsize (blk_lsize leaf + 1)) log'))"

definition BlockFile_new ::
  "nat \<Rightarrow> env \<Rightarrow> blkptr_t list \<Rightarrow> io list \<Rightarrow> (fault + BlockFile \<times> io list) option" where
  "BlockFile_new fuel e bp log = BlockFile_loop fuel e (BlockReader bp) [] 0 0 log"

text \<open>
  \<^verbatim>\<open>BlockFile::Read\<close> (lines 297-376). \<open>refill\<close> is the test of \<^verbatim>\<open>m_cache.bp\<close> with the read
  that follows it (lines 323-331 with \<open>Pool_Read\<close>, lines 347-355 with \<open>Read\<close>) for the element
  at position \<open>k\<close>. \<open>Read_rest\<close> is the inner \<^verbatim>\<open>while\<close> loop (lines 340-365) with the two
  statements after it, \<open>bps\<close> being the elements after the iterator; the values it gives
  \<^verbatim>\<open>lnext\<close> and \<^verbatim>\<open>lstart\<close> are never read again. \<open>Read_walk\<close> is the \<^verbatim>\<open>for\<close> loop (lines
  314-373), \<open>bps\<close> being the elements from the iterator on. The destination \<^verbatim>\<open>void* dst\<close> is the
  caller's buffer \<open>dst\<close>, the pointer \<open>p\<close> a position in it; \<open>sz\<close> is \<^verbatim>\<open>size\<close> and \<open>endpos\<close> is
  \<^verbatim>\<open>end\<close>. The result is the status, \<open>dst\<close>, the file and the log.
\<close>

definition refill ::
  "(bytes \<Rightarrow> blkptr_t \<Rightarrow> io list \<Rightarrow> fault + bool \<times> bytes \<times> io list)
     \<Rightarrow> BlockFile \<Rightarrow> nat \<Rightarrow> blkptr_t \<Rightarrow> io list \<Rightarrow> fault + bool \<times> BlockFile \<times> io list" where
  "refill rd f k bp log =
     (case m_cache_bp f of
        Uninitialised \<Rightarrow> Inl UninitialisedPointer
      | _ \<Rightarrow>
          if m_cache_bp f \<noteq> Leaf k then
            (case rd (m_cache_buff f) bp log of
               Inl x \<Rightarrow> Inl x
             | Inr (False, buff', log') \<Rightarrow> Inr (False, f\<lparr>m_cache_buff := buff'\<rparr>, log')
             | Inr (True, buff', log') \<Rightarrow>
                 Inr (True, f\<lparr>m_cache_bp := Leaf k, m_cache_buff := buff'\<rparr>, log'))
          else Inr (True, f, log))"

definition Read_done ::
  "env \<Rightarrow> BlockFile \<Rightarrow> bytes \<Rightarrow> nat \<Rightarrow> io list \<Rightarrow> fault + bool \<times> bytes \<times> BlockFile \<times> io list" where
  "Read_done e f dst sz log =
     (case ASSERT e (sz = 0) of
        Inl x \<Rightarrow> Inl x
      | Inr _ \<Rightarrow> Inr (sz = 0, dst, f, log))"

fun Read_rest ::
  "env \<Rightarrow> BlockFile \<Rightarrow> blkptr_t list \<Rightarrow> nat \<Rightarrow> bytes \<Rightarrow> nat \<Rightarrow> nat \<Rightarrow> io list
     \<Rightarrow> fault + bool \<times> bytes \<times> BlockFile \<times> io list" where
  "Read_rest e f [] k dst p sz log = Read_done e f dst sz log"
| "Read_rest e f (bp # bps) k dst p sz log =
     (if sz > 0 then
        (let lsize = size_bytes (blk_lsize bp)
         in case refill (Read e) f (Suc k) bp log of
              Inl x \<Rightarrow> Inl x
            | Inr (False, f', log') \<Rightarrow> Inr (False, dst, f', log')
            | Inr (True, f', log') \<Rightarrow>
                (let n = min sz lsize
                 in case peek (m_cache_buff f') 0 n of
                      Inl x \<Rightarrow> Inl x
                    | Inr xs \<Rightarrow>
                        (case poke dst p xs of
                           Inl x \<Rightarrow> Inl x
                         | Inr dst' \<Rightarrow> Read_rest e f' bps (Suc k) dst' (p + n) (sz - n) log')))
      else Read_done e f dst sz log)"

fun Read_walk ::
  "env \<Rightarrow> BlockFile \<Rightarrow> blkptr_t list \<Rightarrow> nat \<Rightarrow> nat \<Rightarrow> bytes \<Rightarrow> nat \<Rightarrow> nat \<Rightarrow> io list
     \<Rightarrow> fault + bool \<times> bytes \<times> BlockFile \<times> io list" where
  "Read_walk e f [] k lstart dst sz offset log = Inr (False, dst, f, log)"
| "Read_walk e f (bp # bps) k lstart dst sz offset log =
     (let lsize = size_bytes (blk_lsize bp);
          lnext = add64 lstart lsize
      in if offset < lnext then
           (case refill (Pool_Read e) f k bp log of
              Inl x \<Rightarrow> Inl x
            | Inr (False, f', log') \<Rightarrow> Inr (False, dst, f', log')
            | Inr (True, f', log') \<Rightarrow>
                (let n = min sz (sub64 lnext offset)
                 in case peek (m_cache_buff f') (sub64 offset lstart) n of
                      Inl x \<Rightarrow> Inl x
                    | Inr xs \<Rightarrow>
                        (case poke dst 0 xs of
                           Inl x \<Rightarrow> Inl x
                         | Inr dst' \<Rightarrow> Read_rest e f' bps k dst' n (sz - n) log')))
         else Read_walk e f bps (Suc k) lnext dst sz offset log)"

definition BlockFile_Read ::
  "env \<Rightarrow> BlockFile \<Rightarrow> bytes \<Rightarrow> nat \<Rightarrow> nat \<Rightarrow> io list
     \<Rightarrow> fault + bool \<times> bytes \<times> BlockFile \<times> io list" where
  "BlockFile_Read e f dst sz offset log =
     (let endpos = add64 offset sz
      in if endpos > m_lsize f then Inr (False, dst, f, log)
         else Read_walk e f (m_bpl f) 0 0 dst sz offset log)"

subsection \<open>A small pool\<close>

text \<open>
  One device with id 0. A read of sector 9 gives four descriptor records: two leaves, at
  sectors 1 and 2, and two unused slots; a read of any other sector \<open>s\<close> gives bytes of
  value \<open>s\<close>. Every decompressor copies its input. A record is 128 bytes, of which
  \<open>demo_decode\<close> reads the first three: the type, the level and the sector of the block. \<open>demo_bp t l v s c\<close> is the descriptor of type \<open>t\<close>
  and level \<open>l\<close>, one sector long, stored on device \<open>v\<close> at sector \<open>s\<close>, unchecked
  and with compression code \<open>c\<close>.
\<close>

definition chunk :: "nat \<Rightarrow> nat \<Rightarrow> nat \<Rightarrow> bytes" where
  "chunk t l s = [of_nat t, of_nat l, of_nat s] @ replicate 125 0"

definition demo_dva :: "nat \<Rightarrow> nat \<Rightarrow> bool \<Rightarrow> dva_t" where
  "demo_dva v s g = \<lparr>dva_vdev = v, dva_offset = s, dva_gang = g\<rparr>"

definition demo_bp :: "nat \<Rightarrow> nat \<Rightarrow> nat \<Rightarrow> nat \<Rightarrow> zio_compress \<Rightarrow> blkptr_t" where
  "demo_bp t l v s c =
     \<lparr>blk_dva = (demo_dva v s False, demo_dva v s False, demo_dva v s False),
      blk_psize = 0, blk_lsize = 0, blk_type = t, blk_lvl = l,
      blk_cksum_type = ZIO_CHECKSUM_OFF, blk_comp_type = c, blk_cksum = 0\<rparr>"

definition demo_decode :: "bytes \<Rightarrow> blkptr_t" where
  "demo_decode bs =
     (if 3 \<le> length bs
      then demo_bp (unat (bs ! 0)) (unat (bs ! 1)) 0 (unat (bs ! 2)) ZIO_COMPRESS_OFF
      else demo_bp 0 0 0 0 ZIO_COMPRESS_OFF)"

definition demo_disk :: "nat \<Rightarrow> nat \<Rightarrow> bytes" where
  "demo_disk n off =
     (if off = 9 * 512 then chunk 1 0 1 @ chunk 1 0 2 @ chunk 0 0 0 @ chunk 0 0 0
      else replicate n (of_nat (off div 512)))"

definition demo_env :: "bool \<Rightarrow> env" where
  "demo_env a =
     \<lparr>m_vdevs = [\<lparr>vdev_id = 0, vdev_Read = demo_disk\<rparr>], asserts = a,
      fletcher_2_native = (\<lambda>_. 0), fletcher_4_native = (\<lambda>_. 0), sha256 = (\<lambda>_. 0),
      lzjb_decompress = (\<lambda>src n. take n src), gzip_decompress = (\<lambda>src n. take n src),
      zle_decompress = (\<lambda>src n w. take n src),
      sizeof_blkptr_t = 128, blkptr_of_bytes = demo_decode\<rparr>"

text \<open>A descriptor whose first address has the gang flag set; the other two do not.\<close>

definition gang_bp :: blkptr_t where
  "gang_bp = (demo_bp 1 0 0 1 ZIO_COMPRESS_OFF)
     \<lparr>blk_dva := (demo_dva 0 1 True, demo_dva 0 2 False, demo_dva 0 3 False)\<rparr>"

text \<open>A file over the leaves at sectors 1 and 2, as its constructor leaves it, and an empty file.\<close>

definition demo_file :: BlockFile where
  "demo_file =
     \<lparr>m_bpl = [demo_bp 1 0 0 1 ZIO_COMPRESS_OFF, demo_bp 1 0 0 2 ZIO_COMPRESS_OFF],
      m_psize = 1024, m_lsize = 1024, m_cache_bp = Null, m_cache_buff = []\<rparr>"

definition empty_file :: BlockFile where
  "empty_file = \<lparr>m_bpl = [], m_psize = 0, m_lsize = 0, m_cache_bp = Null, m_cache_buff = []\<rparr>"

text \<open>
  A leaf at sector 1 that is stored uncompressed in two sectors and declares a logical size
  of one sector.
\<close>

definition long_bp :: blkptr_t where
  "long_bp = (demo_bp 1 0 0 1 ZIO_COMPRESS_OFF)\<lparr>blk_psize := 1\<rparr>"

subsection \<open>Predicates of the statements\<close>

text \<open>No element of the list has the type \<^verbatim>\<open>DMU_OT_NONE\<close>.\<close>

definition used :: "blkptr_t list \<Rightarrow> bool" where
  "used bpl = list_all (\<lambda>b. blk_type b \<noteq> DMU_OT_NONE) bpl"

text \<open>
  The logical length of a block in bytes, and of a list of blocks, as numbers (no wrap-around).
  A file is \<open>sized\<close> when \<open>m_lsize\<close> is the logical length of its leaves, which is the case
  after a construction whose sums did not pass \<open>2 ^ 64\<close>.
\<close>

definition extent :: "blkptr_t \<Rightarrow> nat" where
  "extent b = (blk_lsize b + 1) * 512"

definition total_extent :: "blkptr_t list \<Rightarrow> nat" where
  "total_extent bps = sum_list (map extent bps)"

definition sized :: "BlockFile \<Rightarrow> bool" where
  "sized f \<longleftrightarrow> m_lsize f = total_extent (m_bpl f) \<and> total_extent (m_bpl f) < 2 ^ 64"

text \<open>
  \<open>succeeds\<close>: \<^verbatim>\<open>Read\<close> of the descriptor returns \<^verbatim>\<open>true\<close>, whatever the destination buffer and
  the log hold. \<open>resolves\<close>: moreover the bytes it returns do not depend on what the
  destination buffer held; they are \<open>payload\<close>, the bytes \<^verbatim>\<open>Read\<close> gives on an empty buffer.
\<close>

definition succeeds :: "env \<Rightarrow> blkptr_t \<Rightarrow> bool" where
  "succeeds e b \<longleftrightarrow> (\<forall>buf log. \<exists>d log'. Read e buf b log = Inr (True, d, log'))"

definition payload :: "env \<Rightarrow> blkptr_t \<Rightarrow> bytes" where
  "payload e b = (case Read e [] b [] of Inl x \<Rightarrow> [] | Inr (ok, d, log') \<Rightarrow> d)"

definition resolves :: "env \<Rightarrow> blkptr_t \<Rightarrow> bool" where
  "resolves e b \<longleftrightarrow> (\<forall>buf log. \<exists>log'. Read e buf b log = Inr (True, payload e b, log'))"

text \<open>
  A set of descriptors that is closed under expansion and resolves: each member resolves, a
  leaf to exactly its logical length, and the records of an indirect member that \<^verbatim>\<open>Insert\<close>
  keeps are members.
\<close>

definition closed_tree :: "env \<Rightarrow> blkptr_t set \<Rightarrow> bool" where
  "closed_tree e S \<longleftrightarrow>
     (\<forall>b \<in> S. resolves e b
        \<and> (blk_lvl b = 0 \<longrightarrow> length (payload e b) = extent b)
        \<and> (0 < blk_lvl b \<longrightarrow> set (Insert [] (blkptrs e (payload e b))) \<subseteq> S))"

text \<open>
  The cache of a file is consistent: \<^verbatim>\<open>m_cache.bp\<close> is \<^verbatim>\<open>NULL\<close>, or it points to a leaf of the
  file and \<^verbatim>\<open>m_cache.buff\<close> holds that leaf's bytes.
\<close>

definition cache_ok :: "env \<Rightarrow> BlockFile \<Rightarrow> bool" where
  "cache_ok e f \<longleftrightarrow>
     (case m_cache_bp f of
        Uninitialised \<Rightarrow> False
      | Null \<Rightarrow> True
      | Leaf k \<Rightarrow> k < length (m_bpl f) \<and> m_cache_buff f = payload e (m_bpl f ! k))"

section \<open>Properties\<close>

lemmas demo_defs =
  Read_def ASSERT_def demo_bp_def demo_dva_def demo_env_def size_bytes_def shl9_def add64_def
  demo_disk_def

subsection \<open>Running the small pool\<close>

lemma upt_numeral_last: "[0..<numeral n] = [0..<pred_numeral n] @ [pred_numeral n]"
  by (simp add: numeral_eq_Suc)

lemma demo_env_sel [simp]:
  "m_vdevs (demo_env a) = [\<lparr>vdev_id = 0, vdev_Read = demo_disk\<rparr>]"
  "asserts (demo_env a) = a"
  "gzip_decompress (demo_env a) = (\<lambda>src n. take n src)"
  "lzjb_decompress (demo_env a) = (\<lambda>src n. take n src)"
  "sizeof_blkptr_t (demo_env a) = 128"
  "blkptr_of_bytes (demo_env a) = demo_decode"
  by (simp_all add: demo_env_def)

lemma demo_bp_sel [simp]:
  "blk_dva (demo_bp t l v s c) = (demo_dva v s False, demo_dva v s False, demo_dva v s False)"
  "blk_psize (demo_bp t l v s c) = 0"
  "blk_lsize (demo_bp t l v s c) = 0"
  "blk_type (demo_bp t l v s c) = t"
  "blk_lvl (demo_bp t l v s c) = l"
  "blk_cksum_type (demo_bp t l v s c) = ZIO_CHECKSUM_OFF"
  "blk_comp_type (demo_bp t l v s c) = c"
  by (simp_all add: demo_bp_def)

lemma demo_dva_sel [simp]:
  "dva_vdev (demo_dva v s g) = v" "dva_offset (demo_dva v s g) = s" "dva_gang (demo_dva v s g) = g"
  by (simp_all add: demo_dva_def)

lemma size_bytes_0 [simp]: "size_bytes 0 = 512"
  by (simp add: size_bytes_def shl9_def add64_def)

lemma shl9_small: "s < 2 ^ 55 \<Longrightarrow> shl9 s = s * 512"
  by (simp add: shl9_def)

lemma Read_demo_OFF:
  "s < 2 ^ 55 \<Longrightarrow>
   Read (demo_env a) dst (demo_bp t l 0 s ZIO_COMPRESS_OFF) log
     = Inr (True, demo_disk 512 (s * 512), log @ [(0, 512, s * 512)])"
  by (simp add: Read_def ASSERT_def shl9_small)

lemma Read_demo_missing:
  "v \<noteq> 0 \<Longrightarrow> Read (demo_env a) dst (demo_bp t l v s c) log = Inr (False, dst, log)"
  by (simp add: Read_def ASSERT_def)

lemma length_chunk [simp]: "length (chunk t l s) = 128"
  by (simp add: chunk_def)

lemma chunk_not_Nil [simp]: "chunk t l s \<noteq> []"
  by (simp add: chunk_def)

lemma demo_decode_chunk:
  "t < 256 \<Longrightarrow> l < 256 \<Longrightarrow> s < 256 \<Longrightarrow> demo_decode (chunk t l s) = demo_bp t l 0 s ZIO_COMPRESS_OFF"
  by (simp add: demo_decode_def chunk_def unat_of_nat)

lemma demo_decode_zeros: "demo_decode (replicate 128 0) = demo_bp 0 0 0 0 ZIO_COMPRESS_OFF"
  by (simp add: demo_decode_def)

lemma demo_disk_9: "demo_disk n 4608 = chunk 1 0 1 @ chunk 1 0 2 @ chunk 0 0 0 @ chunk 0 0 0"
  by (simp add: demo_disk_def)

lemma demo_disk_other: "off \<noteq> 4608 \<Longrightarrow> demo_disk n off = replicate n (of_nat (off div 512))"
  by (simp add: demo_disk_def)

lemma blkptrs_demo_9:
  "blkptrs (demo_env a) (chunk 1 0 1 @ chunk 1 0 2 @ chunk 0 0 0 @ chunk 0 0 0)
     = [demo_bp 1 0 0 1 ZIO_COMPRESS_OFF, demo_bp 1 0 0 2 ZIO_COMPRESS_OFF,
        demo_bp 0 0 0 0 ZIO_COMPRESS_OFF, demo_bp 0 0 0 0 ZIO_COMPRESS_OFF]"
  by (simp add: blkptrs_def upt_numeral_last demo_decode_chunk demo_decode_zeros)

lemma blkptrs_demo_ragged:
  "blkptrs (demo_env a) (chunk 1 0 1 @ chunk 1 0 2 @ chunk 0 0 0 @ chunk 0 0 0 @ replicate 488 0)
     = [demo_bp 1 0 0 1 ZIO_COMPRESS_OFF, demo_bp 1 0 0 2 ZIO_COMPRESS_OFF,
        demo_bp 0 0 0 0 ZIO_COMPRESS_OFF, demo_bp 0 0 0 0 ZIO_COMPRESS_OFF,
        demo_bp 0 0 0 0 ZIO_COMPRESS_OFF, demo_bp 0 0 0 0 ZIO_COMPRESS_OFF,
        demo_bp 0 0 0 0 ZIO_COMPRESS_OFF]"
  by (simp add: blkptrs_def upt_numeral_last demo_decode_chunk demo_decode_zeros)

lemma blkptrs_demo_zeros:
  "blkptrs (demo_env a) (replicate 512 0)
     = [demo_bp 0 0 0 0 ZIO_COMPRESS_OFF, demo_bp 0 0 0 0 ZIO_COMPRESS_OFF,
        demo_bp 0 0 0 0 ZIO_COMPRESS_OFF, demo_bp 0 0 0 0 ZIO_COMPRESS_OFF]"
  by (simp add: blkptrs_def upt_numeral_last demo_decode_zeros)

lemma Read_demo_GZIP_9:
  "Read (demo_env a) (replicate 1000 0) (demo_bp 1 1 0 9 ZIO_COMPRESS_GZIP_1) []
     = Inr (True, chunk 1 0 1 @ chunk 1 0 2 @ chunk 0 0 0 @ chunk 0 0 0 @ replicate 488 0,
            [(0, 512, 4608)])"
  by (simp add: Read_def ASSERT_def shl9_small demo_disk_9 gzip_into_def poke_def Let_def
      del: One_nat_def)

lemma Read_long:
  "Read (demo_env a) dst long_bp log = Inr (True, replicate 1024 1, log @ [(0, 1024, 512)])"
  by (simp add: Read_def ASSERT_def long_bp_def shl9_small demo_disk_other size_bytes_def add64_def
      shl9_def)

lemmas run_defs = BlockFile_new_def BlockReader_def Insert_def ReadNext_def ReadToEnd_def
  DMU_OT_NONE_def poke_def peek_def resize_def

subsection \<open>Insert\<close>

lemma Insert_loop_filter:
  "Insert_loop l bp = l @ filter (\<lambda>b. blk_type b \<noteq> DMU_OT_NONE) bp"
  by (induction bp arbitrary: l) auto

lemma Insert_filter:
  "Insert bpl bp = filter (\<lambda>b. blk_type b \<noteq> DMU_OT_NONE) bp @ bpl"
  by (simp add: Insert_def Insert_loop_filter)

lemma used_simps [simp]:
  "used []" "used (b # bpl) \<longleftrightarrow> blk_type b \<noteq> DMU_OT_NONE \<and> used bpl"
  "used (xs @ ys) \<longleftrightarrow> used xs \<and> used ys"
  by (simp_all add: used_def)

lemma used_Insert: "used bpl \<Longrightarrow> used (Insert bpl bp)"
  by (simp add: Insert_filter) (simp add: used_def list_all_iff)

lemma used_foldl_Insert: "used bpl \<Longrightarrow> used (foldl Insert bpl arrays)"
  by (induction arrays arbitrary: bpl) (simp_all add: used_Insert)

lemma used_ReadNext_loop:
  "ReadNext_loop n e bp buff bpl log = Some (Inr (ok, buff', bpl', log')) \<Longrightarrow> used bpl \<Longrightarrow> used bpl'"
proof (induction n arbitrary: bp buff bpl log)
  case 0
  then show ?case by simp
next
  case (Suc n)
  show ?case
  proof (cases "blk_lvl bp > 0")
    case False
    with Suc.prems show ?thesis by (auto split: sum.splits)
  next
    case True
    show ?thesis
    proof (cases "Read e buff bp log")
      case (Inl x)
      with True Suc.prems show ?thesis by simp
    next
      case (Inr r)
      obtain ok1 buff1 log1 where r: "r = (ok1, buff1, log1)" by (cases r)
      show ?thesis
      proof (cases ok1)
        case False
        with True Inr r Suc.prems show ?thesis by auto
      next
        case ok1: True
        show ?thesis
        proof (cases "Insert bpl (blkptrs e buff1)")
          case Nil
          with True Inr r ok1 Suc.prems show ?thesis by simp
        next
          case (Cons bp1 bpl1)
          from used_Insert [OF Suc.prems(2), of "blkptrs e buff1"] Cons have "used bpl1" by simp
          moreover from True Inr r ok1 Cons Suc.prems(1)
          have "ReadNext_loop n e bp1 buff1 bpl1 log1 = Some (Inr (ok, buff', bpl', log'))" by simp
          ultimately show ?thesis by (rule Suc.IH [rotated])
        qed
      qed
    qed
  qed
qed

lemma used_ReadNext:
  "ReadNext n e bpl buff log = Some (Inr (ok, buff', bpl', log')) \<Longrightarrow> used bpl \<Longrightarrow> used bpl'"
  by (cases bpl) (auto simp: ReadNext_def dest: used_ReadNext_loop)

lemma used_BlockFile_descend:
  "BlockFile_descend n e bp bpl log = Some (Inr (r, bpl', log')) \<Longrightarrow> used (bp # bpl) \<Longrightarrow>
     used bpl' \<and> (\<forall>leaf. r = Some leaf \<longrightarrow> blk_type leaf \<noteq> DMU_OT_NONE)"
proof (induction n arbitrary: bp bpl log)
  case 0
  then show ?case by simp
next
  case (Suc n)
  show ?case
  proof (cases "blk_lvl bp > 0")
    case False
    with Suc.prems show ?thesis by auto
  next
    case True
    show ?thesis
    proof (cases "Read e [] bp log")
      case (Inl x)
      with True Suc.prems show ?thesis by simp
    next
      case (Inr r1)
      obtain ok1 buff1 log1 where r: "r1 = (ok1, buff1, log1)" by (cases r1)
      show ?thesis
      proof (cases ok1)
        case False
        with True Inr r Suc.prems show ?thesis by (auto split: sum.splits)
      next
        case ok1: True
        show ?thesis
        proof (cases "Insert bpl (blkptrs e buff1)")
          case Nil
          with True Inr r ok1 Suc.prems show ?thesis by simp
        next
          case (Cons bp1 bpl1)
          from Suc.prems(2) have "used bpl" by simp
          from used_Insert [OF this, of "blkptrs e buff1"] Cons have "used (bp1 # bpl1)" by simp
          moreover from True Inr r ok1 Cons Suc.prems(1)
          have "BlockFile_descend n e bp1 bpl1 log1 = Some (Inr (r, bpl', log'))" by simp
          ultimately show ?thesis by (rule Suc.IH [rotated])
        qed
      qed
    qed
  qed
qed

lemma used_BlockFile_loop:
  "BlockFile_loop n e bpl l ps ls log = Some (Inr (f, log')) \<Longrightarrow> used bpl \<Longrightarrow> used l \<Longrightarrow>
     used (m_bpl f)"
proof (induction n arbitrary: bpl l ps ls log)
  case 0
  then show ?case by simp
next
  case (Suc n)
  show ?case
  proof (cases bpl)
    case Nil
    with Suc.prems show ?thesis by auto
  next
    case (Cons bp rest)
    show ?thesis
    proof (cases "BlockFile_descend (Suc n) e bp rest log")
      case None
      with Cons Suc.prems show ?thesis by simp
    next
      case (Some res)
      show ?thesis
      proof (cases res)
        case (Inl x)
        with Cons Some Suc.prems show ?thesis by simp
      next
        case (Inr r1)
        obtain r bpl1 log1 where r: "r1 = (r, bpl1, log1)" by (cases r1)
        from Some Inr r have D: "BlockFile_descend (Suc n) e bp rest log = Some (Inr (r, bpl1, log1))"
          by simp
        from used_BlockFile_descend [OF D] Suc.prems(2) Cons
        have U: "used bpl1" and L: "\<forall>leaf. r = Some leaf \<longrightarrow> blk_type leaf \<noteq> DMU_OT_NONE" by simp_all
        show ?thesis
        proof (cases r)
          case None
          with Cons D Suc.prems(1) U show ?thesis by auto
        next
          case (Some leaf)
          with Cons D Suc.prems(1)
          have "BlockFile_loop n e bpl1 (l @ [leaf]) (add64 ps (blk_psize leaf + 1))
                  (add64 ls (blk_lsize leaf + 1)) log1 = Some (Inr (f, log'))" by simp
          moreover from L Some Suc.prems(3) have "used (l @ [leaf])" by simp
          ultimately show ?thesis using U by (intro Suc.IH)
        qed
      qed
    qed
  qed
qed

text \<open>
  C7. \<^verbatim>\<open>Insert\<close> keeps, in their order and in front of what the list held, exactly the
  elements of the array whose type is not \<^verbatim>\<open>DMU_OT_NONE\<close>; it has no failing branch. So no
  element of that type is in the list after any sequence of \<^verbatim>\<open>Insert\<close> calls that starts on
  the empty list, in the list a \<^verbatim>\<open>BlockFile\<close> holds after its construction (the leaf index), or
  in the list that \<^verbatim>\<open>ReadNext\<close> leaves when it started on a list without one.
\<close>

theorem Insert_drops_NONE:
  "Insert bpl bp = filter (\<lambda>b. blk_type b \<noteq> DMU_OT_NONE) bp @ bpl
   \<and> (\<forall>b \<in> set (foldl Insert [] arrays). blk_type b \<noteq> DMU_OT_NONE)
   \<and> (BlockFile_new n e bp log = Some (Inr (f, log')) \<longrightarrow>
        (\<forall>b \<in> set (m_bpl f). blk_type b \<noteq> DMU_OT_NONE))
   \<and> ((\<forall>b \<in> set bpl. blk_type b \<noteq> DMU_OT_NONE)
        \<and> ReadNext n e bpl buff log = Some (Inr (ok, buff', bpl', log'')) \<longrightarrow>
        (\<forall>b \<in> set bpl'. blk_type b \<noteq> DMU_OT_NONE))"
proof (intro conjI impI)
  show "Insert bpl bp = filter (\<lambda>b. blk_type b \<noteq> DMU_OT_NONE) bp @ bpl"
    by (rule Insert_filter)
  have "used (foldl Insert [] arrays)" by (rule used_foldl_Insert) simp
  then show "\<forall>b \<in> set (foldl Insert [] arrays). blk_type b \<noteq> DMU_OT_NONE"
    by (simp add: used_def list_all_iff)
next
  assume "BlockFile_new n e bp log = Some (Inr (f, log'))"
  then have "BlockFile_loop n e (Insert [] bp) [] 0 0 log = Some (Inr (f, log'))"
    by (simp add: BlockFile_new_def BlockReader_def)
  then have "used (m_bpl f)" by (rule used_BlockFile_loop) (simp_all add: used_Insert)
  then show "\<forall>b \<in> set (m_bpl f). blk_type b \<noteq> DMU_OT_NONE" by (simp add: used_def list_all_iff)
next
  assume "(\<forall>b \<in> set bpl. blk_type b \<noteq> DMU_OT_NONE)
        \<and> ReadNext n e bpl buff log = Some (Inr (ok, buff', bpl', log''))"
  then have "used bpl" and "ReadNext n e bpl buff log = Some (Inr (ok, buff', bpl', log''))"
    by (simp_all add: used_def list_all_iff)
  from used_ReadNext [OF this(2) this(1)]
  show "\<forall>b \<in> set bpl'. blk_type b \<noteq> DMU_OT_NONE" by (simp add: used_def list_all_iff)
qed

theorem Insert_drops_NONE_witness:
  "Insert [demo_bp 1 0 0 2 ZIO_COMPRESS_OFF]
       [demo_bp 0 0 0 0 ZIO_COMPRESS_OFF, demo_bp 1 0 0 1 ZIO_COMPRESS_OFF]
     = [demo_bp 1 0 0 1 ZIO_COMPRESS_OFF, demo_bp 1 0 0 2 ZIO_COMPRESS_OFF]
   \<and> blk_type (demo_bp 0 0 0 0 ZIO_COMPRESS_OFF) = DMU_OT_NONE
   \<and> foldl Insert []
        [[demo_bp 0 0 0 0 ZIO_COMPRESS_OFF, demo_bp 1 0 0 2 ZIO_COMPRESS_OFF],
         [demo_bp 1 0 0 1 ZIO_COMPRESS_OFF, demo_bp 0 0 0 0 ZIO_COMPRESS_OFF]]
     = [demo_bp 1 0 0 1 ZIO_COMPRESS_OFF, demo_bp 1 0 0 2 ZIO_COMPRESS_OFF]
   \<and> BlockFile_new (Suc (Suc 0)) (demo_env True)
        [demo_bp 0 0 0 0 ZIO_COMPRESS_OFF, demo_bp 1 0 0 1 ZIO_COMPRESS_OFF] []
     = Some (Inr (\<lparr>m_bpl = [demo_bp 1 0 0 1 ZIO_COMPRESS_OFF], m_psize = 512, m_lsize = 512,
                    m_cache_bp = Null, m_cache_buff = []\<rparr>, []))
   \<and> ReadNext (Suc (Suc 0)) (demo_env True) [demo_bp 1 0 0 2 ZIO_COMPRESS_OFF] [] []
     = Some (Inr (True, replicate 512 2, [], [(0, 512, 1024)]))"
  using Insert_drops_NONE [where bpl = "[demo_bp 1 0 0 2 ZIO_COMPRESS_OFF]"
      and bp = "[demo_bp 0 0 0 0 ZIO_COMPRESS_OFF, demo_bp 1 0 0 1 ZIO_COMPRESS_OFF]"
      and arrays = "[[demo_bp 0 0 0 0 ZIO_COMPRESS_OFF, demo_bp 1 0 0 2 ZIO_COMPRESS_OFF],
         [demo_bp 1 0 0 1 ZIO_COMPRESS_OFF, demo_bp 0 0 0 0 ZIO_COMPRESS_OFF]]"
      and n = "Suc (Suc 0)" and e = "demo_env True" and log = "[]"]
  by (simp add: demo_defs DMU_OT_NONE_def BlockFile_new_def BlockReader_def Insert_def
      ReadNext_def)

subsection \<open>Read, Verify, Decompress\<close>

lemma Verify_fault:
  "Verify e buff c k = Inl x \<Longrightarrow> x = AssertionFailed \<and> asserts e"
  by (cases c) (auto simp: compare_def ASSERT_def split: if_splits)

lemma Read_vdevs_unknown:
  assumes "(\<exists>v. blk_cksum_type bp = ZIO_CHECKSUM_OTHER v) \<or> (\<exists>v. blk_comp_type bp = ZIO_COMPRESS_OTHER v)"
  shows "(\<exists>log'. Read_vdevs e bp addr vs dst log = Inr (False, dst, log'))
         \<or> (asserts e \<and> Read_vdevs e bp addr vs dst log = Inl AssertionFailed)"
  using assms
proof (induction vs arbitrary: log)
  case Nil
  then show ?case by simp
next
  case (Cons vdev vs)
  let ?src = "vdev_Read vdev (size_bytes (blk_psize bp)) (shl9 (dva_offset addr))"
  let ?log = "log @ [(vdev_id vdev, size_bytes (blk_psize bp), shl9 (dva_offset addr))]"
  note IH = Cons.IH [OF Cons.prems]
  show ?case
  proof (cases "vdev_id vdev \<noteq> dva_vdev addr")
    case True
    then show ?thesis using IH [of log] by simp
  next
    case False
    show ?thesis
    proof (cases "Verify e ?src (blk_cksum_type bp) (blk_cksum bp)")
      case (Inl x)
      with Verify_fault [OF Inl] False show ?thesis by (simp add: Let_def)
    next
      case (Inr ok)
      show ?thesis
      proof (cases ok)
        case False
        with Inr \<open>\<not> vdev_id vdev \<noteq> dva_vdev addr\<close> IH [of ?log] show ?thesis
          by (simp add: Let_def)
      next
        case True
        with Inr have "\<nexists>v. blk_cksum_type bp = ZIO_CHECKSUM_OTHER v"
          by (auto simp: ASSERT_def split: if_splits)
        with Cons.prems obtain v where "blk_comp_type bp = ZIO_COMPRESS_OTHER v" by blast
        with Inr True \<open>\<not> vdev_id vdev \<noteq> dva_vdev addr\<close> IH [of ?log] show ?thesis
          by (auto simp: Let_def ASSERT_def)
      qed
    qed
  qed
qed

lemma Read_dvas_unknown:
  assumes "(\<exists>v. blk_cksum_type bp = ZIO_CHECKSUM_OTHER v) \<or> (\<exists>v. blk_comp_type bp = ZIO_COMPRESS_OTHER v)"
  shows "(\<exists>log'. Read_dvas e bp as dst log = Inr (False, dst, log'))
         \<or> (asserts e \<and> Read_dvas e bp as dst log = Inl AssertionFailed)"
proof (induction as arbitrary: log)
  case Nil
  then show ?case by simp
next
  case (Cons addr as)
  show ?case
  proof (cases "asserts e \<and> dva_gang addr")
    case True
    then show ?thesis by (simp add: ASSERT_def)
  next
    case False
    then have A: "ASSERT e (dva_gang addr = False) = Inr ()" by (auto simp: ASSERT_def)
    from Read_vdevs_unknown [OF assms, of e addr "m_vdevs e" dst log]
    show ?thesis
    proof
      assume "\<exists>log'. Read_vdevs e bp addr (m_vdevs e) dst log = Inr (False, dst, log')"
      then obtain log' where "Read_vdevs e bp addr (m_vdevs e) dst log = Inr (False, dst, log')" ..
      with A Cons.IH [of log'] show ?thesis by simp
    next
      assume "asserts e \<and> Read_vdevs e bp addr (m_vdevs e) dst log = Inl AssertionFailed"
      with A show ?thesis by simp
    qed
  qed
qed

text \<open>
  C4. A descriptor whose checksum code or whose compression code is none of the codes that
  \<^verbatim>\<open>Verify\<close> and \<^verbatim>\<open>Decompress\<close> name never resolves: \<^verbatim>\<open>Read\<close> returns \<^verbatim>\<open>false\<close> and leaves the
  destination as it was, for all three addresses and every device (a build that checks
  assertions stops at an \<^verbatim>\<open>ASSERT\<close> instead). No other algorithm is tried and no bytes are
  produced.
\<close>

theorem unknown_code_fails:
  assumes "(\<exists>v. blk_cksum_type bp = ZIO_CHECKSUM_OTHER v) \<or> (\<exists>v. blk_comp_type bp = ZIO_COMPRESS_OTHER v)"
  shows "(\<exists>log'. Read e dst bp log = Inr (False, dst, log'))
         \<or> (asserts e \<and> Read e dst bp log = Inl AssertionFailed)"
proof -
  obtain a0 a1 a2 where "blk_dva bp = (a0, a1, a2)" by (rule prod_cases3)
  then have "Read e dst bp log = Read_dvas e bp [a0, a1, a2] dst log" by (simp add: Read_def)
  with Read_dvas_unknown [OF assms, of e "[a0, a1, a2]" dst log] show ?thesis
    by (simp del: Read_dvas.simps)
qed

theorem unknown_code_fails_witness:
  "blk_comp_type (demo_bp 1 0 0 1 (ZIO_COMPRESS_OTHER 99)) = ZIO_COMPRESS_OTHER 99
   \<and> Read (demo_env False) [7] (demo_bp 1 0 0 1 (ZIO_COMPRESS_OTHER 99)) []
       = Inr (False, [7], [(0, 512, 512), (0, 512, 512), (0, 512, 512)])
   \<and> Read (demo_env True) [7] (demo_bp 1 0 0 1 (ZIO_COMPRESS_OTHER 99)) [] = Inl AssertionFailed"
  using unknown_code_fails [of "demo_bp 1 0 0 1 (ZIO_COMPRESS_OTHER 99)" "demo_env False" "[7]" "[]"]
  by (simp add: demo_defs)

lemma Read_vdevs_copy:
  assumes "blk_comp_type bp = ZIO_COMPRESS_OFF \<or> blk_comp_type bp = ZIO_COMPRESS_EMPTY"
  shows "Read_vdevs e bp addr vs dst log = Inr (True, d, log') \<Longrightarrow>
     \<exists>vdev \<in> set vs. vdev_id vdev = dva_vdev addr
       \<and> d = vdev_Read vdev (size_bytes (blk_psize bp)) (shl9 (dva_offset addr))"
proof (induction vs arbitrary: log)
  case Nil
  then show ?case by simp
next
  case (Cons vdev vs)
  let ?src = "vdev_Read vdev (size_bytes (blk_psize bp)) (shl9 (dva_offset addr))"
  let ?log = "log @ [(vdev_id vdev, size_bytes (blk_psize bp), shl9 (dva_offset addr))]"
  show ?case
  proof (cases "vdev_id vdev \<noteq> dva_vdev addr")
    case True
    with Cons.prems have "Read_vdevs e bp addr vs dst log = Inr (True, d, log')" by simp
    from Cons.IH [OF this] show ?thesis by auto
  next
    case False
    show ?thesis
    proof (cases "Verify e ?src (blk_cksum_type bp) (blk_cksum bp)")
      case (Inl x)
      with False Cons.prems show ?thesis by (simp add: Let_def)
    next
      case (Inr ok)
      show ?thesis
      proof (cases ok)
        case True
        from assms have "Decompress e ?src dst (size_bytes (blk_lsize bp)) (blk_comp_type bp)
            = Inr (True, ?src)"
          by auto
        with True Inr False Cons.prems have "d = ?src" by (simp add: Let_def)
        with False show ?thesis by simp
      next
        case no: False
        with Inr False Cons.prems have "Read_vdevs e bp addr vs dst ?log = Inr (True, d, log')"
          by (simp add: Let_def)
        from Cons.IH [OF this] show ?thesis by auto
      qed
    qed
  qed
qed

lemma Read_dvas_copy:
  assumes "blk_comp_type bp = ZIO_COMPRESS_OFF \<or> blk_comp_type bp = ZIO_COMPRESS_EMPTY"
  shows "Read_dvas e bp as dst log = Inr (True, d, log') \<Longrightarrow>
     \<exists>addr \<in> set as. \<exists>vdev \<in> set (m_vdevs e). vdev_id vdev = dva_vdev addr
       \<and> d = vdev_Read vdev (size_bytes (blk_psize bp)) (shl9 (dva_offset addr))"
proof (induction as arbitrary: dst log)
  case Nil
  then show ?case by simp
next
  case (Cons addr as)
  show ?case
  proof (cases "ASSERT e (dva_gang addr = False)")
    case (Inl x)
    with Cons.prems show ?thesis by simp
  next
    case A: (Inr u)
    show ?thesis
    proof (cases "Read_vdevs e bp addr (m_vdevs e) dst log")
      case (Inl x)
      with A Cons.prems show ?thesis by simp
    next
      case (Inr r)
      obtain ok d1 log1 where r: "r = (ok, d1, log1)" by (cases r)
      show ?thesis
      proof (cases ok)
        case True
        with A Inr r Cons.prems have "Read_vdevs e bp addr (m_vdevs e) dst log = Inr (True, d, log')"
          by simp
        from Read_vdevs_copy [OF assms this] show ?thesis by auto
      next
        case False
        with A Inr r Cons.prems have "Read_dvas e bp as d1 log1 = Inr (True, d, log')" by simp
        from Cons.IH [OF this] show ?thesis by auto
      qed
    qed
  qed
qed

text \<open>
  C8, as the source has it. For the codes \<^verbatim>\<open>ZIO_COMPRESS_OFF\<close> and \<^verbatim>\<open>ZIO_COMPRESS_EMPTY\<close>,
  \<^verbatim>\<open>Decompress\<close> succeeds with the input bytes as its output, whatever the declared logical
  size \<open>lsize\<close> is: the size is not looked at. So when \<^verbatim>\<open>Read\<close> of a descriptor with one of
  these codes succeeds, its output is what a device of the pool left in the buffer of the
  physical size, for one of the three addresses.
\<close>

theorem Decompress_OFF_EMPTY:
  "Decompress e src dst lsize ZIO_COMPRESS_OFF = Inr (True, src)
   \<and> Decompress e src dst lsize ZIO_COMPRESS_EMPTY = Inr (True, src)
   \<and> ((blk_comp_type bp = ZIO_COMPRESS_OFF \<or> blk_comp_type bp = ZIO_COMPRESS_EMPTY)
        \<and> Read e dst bp log = Inr (True, d, log') \<longrightarrow>
      (\<exists>addr vdev. addr \<in> set (case blk_dva bp of (a0, a1, a2) \<Rightarrow> [a0, a1, a2])
         \<and> vdev \<in> set (m_vdevs e) \<and> vdev_id vdev = dva_vdev addr
         \<and> d = vdev_Read vdev (size_bytes (blk_psize bp)) (shl9 (dva_offset addr))))"
proof (intro conjI impI)
  assume A: "(blk_comp_type bp = ZIO_COMPRESS_OFF \<or> blk_comp_type bp = ZIO_COMPRESS_EMPTY)
        \<and> Read e dst bp log = Inr (True, d, log')"
  obtain a0 a1 a2 where d: "blk_dva bp = (a0, a1, a2)" by (rule prod_cases3)
  with A have "Read_dvas e bp [a0, a1, a2] dst log = Inr (True, d, log')" by (simp add: Read_def)
  from Read_dvas_copy [OF conjunct1 [OF A] this] d
  show "\<exists>addr vdev. addr \<in> set (case blk_dva bp of (a0, a1, a2) \<Rightarrow> [a0, a1, a2])
         \<and> vdev \<in> set (m_vdevs e) \<and> vdev_id vdev = dva_vdev addr
         \<and> d = vdev_Read vdev (size_bytes (blk_psize bp)) (shl9 (dva_offset addr))"
    by (simp del: Read_dvas.simps) blast
qed simp_all

theorem Decompress_OFF_EMPTY_witness:
  "blk_comp_type long_bp = ZIO_COMPRESS_OFF
   \<and> Read (demo_env True) [] long_bp [] = Inr (True, replicate 1024 1, [(0, 1024, 512)])
   \<and> replicate 1024 1 = demo_disk (size_bytes (blk_psize long_bp)) 512
   \<and> size_bytes (blk_psize long_bp) = 1024 \<and> size_bytes (blk_lsize long_bp) = 512"
  using Decompress_OFF_EMPTY [where bp = long_bp and e = "demo_env True" and dst = "[]"
      and log = "[]" and d = "replicate 1024 1" and log' = "[(0, 1024, 512)]"]
    Read_long [of True "[]" "[]"]
  by (simp add: long_bp_def demo_disk_other size_bytes_def shl9_def add64_def)

text \<open>
  C8 as stated fails: 512 input bytes with a declared logical size of 1024 bytes decode,
  with success, to 512 bytes.
\<close>

theorem Decompress_OFF_sizes_differ:
  "Decompress (demo_env True) (replicate 512 1) [] 1024 ZIO_COMPRESS_OFF = Inr (True, replicate 512 1)
   \<and> length (replicate 512 (1 :: byte)) \<noteq> 1024"
  by simp

text \<open>
  C1 fails on the source. The first address of \<open>gang_bp\<close> has the gang flag set. In a build
  without assertions \<^verbatim>\<open>Read\<close> reads that address (sector 1) and returns its bytes; in a build
  with assertions the run stops at line 77. In neither does it go on to the second address.
\<close>

theorem gang_address_is_read:
  "Read (demo_env False) [] gang_bp [] = Inr (True, replicate 512 1, [(0, 512, 512)])
   \<and> Read (demo_env True) [] gang_bp [] = Inl AssertionFailed"
  by (simp add: demo_defs gang_bp_def)

subsection \<open>BlockStream and the expansion of indirect blocks\<close>

text \<open>
  C3 fails on the source. The second of three leaves is on a device the pool does not have,
  so its \<^verbatim>\<open>Read\<close>, and with it the second \<^verbatim>\<open>ReadNext\<close>, returns \<^verbatim>\<open>false\<close>. \<^verbatim>\<open>ReadToEnd\<close> takes
  that for the end of the stream: it returns \<^verbatim>\<open>true\<close> with the bytes of the first leaf, and
  the third leaf is still in the list.
\<close>

theorem ReadToEnd_hides_failure:
  "Read (demo_env True) (replicate 512 1) (demo_bp 1 0 7 2 ZIO_COMPRESS_OFF) [(0, 512, 512)]
     = Inr (False, replicate 512 1, [(0, 512, 512)])
   \<and> ReadToEnd (Suc (Suc (Suc 0))) (demo_env True)
        [demo_bp 1 0 0 1 ZIO_COMPRESS_OFF, demo_bp 1 0 7 2 ZIO_COMPRESS_OFF,
         demo_bp 1 0 0 3 ZIO_COMPRESS_OFF] []
     = Some (Inr (True, replicate 512 1, [demo_bp 1 0 0 3 ZIO_COMPRESS_OFF], [(0, 512, 512)]))"
  by (simp add: run_defs Read_demo_OFF Read_demo_missing demo_disk_other)

text \<open>
  C9 fails on the source. The indirect block at sector 0 holds four records of type
  \<^verbatim>\<open>DMU_OT_NONE\<close>; \<^verbatim>\<open>Insert\<close> drops them all, and the \<^verbatim>\<open>m_bpl.front()\<close> that follows (line 213
  in \<^verbatim>\<open>ReadNext\<close>, line 274 in the constructor) is taken of an empty list.
\<close>

theorem front_of_empty_list:
  "Read (demo_env True) [] (demo_bp 1 1 0 0 ZIO_COMPRESS_OFF) [] = Inr (True, replicate 512 0, [(0, 512, 0)])
   \<and> Insert [] (blkptrs (demo_env True) (replicate 512 0)) = []
   \<and> ReadNext (Suc (Suc 0)) (demo_env True) [demo_bp 1 1 0 0 ZIO_COMPRESS_OFF] [] []
     = Some (Inl FrontOfEmptyList)
   \<and> BlockFile_new (Suc (Suc 0)) (demo_env True) [demo_bp 1 1 0 0 ZIO_COMPRESS_OFF] []
     = Some (Inl FrontOfEmptyList)"
  by (simp add: run_defs Read_demo_OFF demo_disk_other blkptrs_demo_zeros)

text \<open>
  C2 as stated fails. \<^verbatim>\<open>ReadNext\<close> is called with a buffer of 1000 bytes, on an indirect
  block with a gzip code. \<^verbatim>\<open>Decompress\<close> writes the 512 decompressed bytes into the buffer
  without resizing it, so the payload has 1000 bytes, which is 7 records and 104 bytes more.
  The call does not fail: it takes the 7 records and returns the first leaf.
\<close>

theorem ragged_payload_accepted:
  "Read (demo_env True) (replicate 1000 0) (demo_bp 1 1 0 9 ZIO_COMPRESS_GZIP_1) []
     = Inr (True, chunk 1 0 1 @ chunk 1 0 2 @ chunk 0 0 0 @ chunk 0 0 0 @ replicate 488 0,
            [(0, 512, 4608)])
   \<and> length (chunk 1 0 1 @ chunk 1 0 2 @ chunk 0 0 0 @ chunk 0 0 0 @ replicate 488 0)
       mod sizeof_blkptr_t (demo_env True) = 104
   \<and> ReadNext (Suc (Suc 0)) (demo_env True) [demo_bp 1 1 0 9 ZIO_COMPRESS_GZIP_1]
        (replicate 1000 0) []
     = Some (Inr (True, replicate 512 1, [demo_bp 1 0 0 2 ZIO_COMPRESS_OFF],
                  [(0, 512, 4608), (0, 512, 512)]))"
  by (simp add: run_defs Read_demo_GZIP_9 blkptrs_demo_ragged Read_demo_OFF demo_disk_other
      del: One_nat_def)

lemma blkptrs_whole_records:
  "blkptrs e (take (length buff div sizeof_blkptr_t e * sizeof_blkptr_t e) buff) = blkptrs e buff"
proof (cases "sizeof_blkptr_t e = 0")
  case True
  then show ?thesis by (simp add: blkptrs_def)
next
  case False
  define z where "z = sizeof_blkptr_t e"
  define q where "q = length buff div z"
  have z: "0 < z" using False by (simp add: z_def)
  have le: "q * z \<le> length buff" by (simp add: q_def)
  have len: "length (take (q * z) buff) div z = q" using z le by simp
  have "take z (drop (k * z) (take (q * z) buff)) = take z (drop (k * z) buff)" if "k < q" for k
  proof -
    from that have "Suc k \<le> q" by simp
    then have "Suc k * z \<le> q * z" by (rule mult_le_mono1)
    then have "z \<le> q * z - k * z" by simp
    then show ?thesis by (simp add: drop_take min_absorb1)
  qed
  then show ?thesis
    unfolding blkptrs_def z_def [symmetric] q_def [symmetric] len by simp
qed

text \<open>
  C2, as the source has it. The payload of an indirect block is read as
  \<open>length div sizeof(blkptr_t)\<close> records, whatever the remainder of the division is: the
  bytes after the last whole record are ignored. When the \<^verbatim>\<open>Read\<close> of an indirect block
  succeeds, a step of the loop in \<^verbatim>\<open>ReadNext\<close> and a step of the loop in the constructor go
  on with the first of the records kept by \<^verbatim>\<open>Insert\<close>; no step fails for the payload's
  length.
\<close>

theorem indirect_payload_truncated:
  "length (blkptrs e buff') = length buff' div sizeof_blkptr_t e
   \<and> (0 < blk_lvl bp \<and> Read e buff bp log = Inr (True, buff', log')
        \<and> Insert bpl (blkptrs e (take (length buff' div sizeof_blkptr_t e * sizeof_blkptr_t e) buff'))
            = bp' # bpl'
      \<longrightarrow> ReadNext_loop (Suc n) e bp buff bpl log = ReadNext_loop n e bp' buff' bpl' log')
   \<and> (0 < blk_lvl bp \<and> Read e [] bp log = Inr (True, buff', log')
        \<and> Insert bpl (blkptrs e (take (length buff' div sizeof_blkptr_t e * sizeof_blkptr_t e) buff'))
            = bp' # bpl'
      \<longrightarrow> BlockFile_descend (Suc n) e bp bpl log = BlockFile_descend n e bp' bpl' log')"
  by (simp add: blkptrs_whole_records) (simp add: blkptrs_def)

theorem indirect_payload_truncated_witness:
  "0 < blk_lvl (demo_bp 1 1 0 9 ZIO_COMPRESS_GZIP_1)
   \<and> Read (demo_env True) (replicate 1000 0) (demo_bp 1 1 0 9 ZIO_COMPRESS_GZIP_1) []
     = Inr (True, chunk 1 0 1 @ chunk 1 0 2 @ chunk 0 0 0 @ chunk 0 0 0 @ replicate 488 0,
            [(0, 512, 4608)])
   \<and> length (blkptrs (demo_env True)
        (chunk 1 0 1 @ chunk 1 0 2 @ chunk 0 0 0 @ chunk 0 0 0 @ replicate 488 0)) = 7
   \<and> ReadNext_loop (Suc (Suc 0)) (demo_env True) (demo_bp 1 1 0 9 ZIO_COMPRESS_GZIP_1)
        (replicate 1000 0) [] []
     = ReadNext_loop (Suc 0) (demo_env True) (demo_bp 1 0 0 1 ZIO_COMPRESS_OFF)
        (chunk 1 0 1 @ chunk 1 0 2 @ chunk 0 0 0 @ chunk 0 0 0 @ replicate 488 0)
        [demo_bp 1 0 0 2 ZIO_COMPRESS_OFF] [(0, 512, 4608)]"
proof -
  let ?e = "demo_env True"
  let ?bp = "demo_bp 1 1 0 9 ZIO_COMPRESS_GZIP_1"
  let ?buff = "chunk 1 0 1 @ chunk 1 0 2 @ chunk 0 0 0 @ chunk 0 0 0 @ replicate 488 0"
  note T = indirect_payload_truncated [where e = ?e and bp = ?bp and buff = "replicate 1000 0"
      and log = "[]" and buff' = ?buff and log' = "[(0, 512, 4608)]" and bpl = "[]"
      and bp' = "demo_bp 1 0 0 1 ZIO_COMPRESS_OFF" and bpl' = "[demo_bp 1 0 0 2 ZIO_COMPRESS_OFF]"
      and n = "Suc 0"]
  have lvl: "0 < blk_lvl ?bp" by simp
  have rd: "Read ?e (replicate 1000 0) ?bp [] = Inr (True, ?buff, [(0, 512, 4608)])"
    by (rule Read_demo_GZIP_9)
  have ins: "Insert [] (blkptrs ?e (take (length ?buff div sizeof_blkptr_t ?e * sizeof_blkptr_t ?e) ?buff))
      = [demo_bp 1 0 0 1 ZIO_COMPRESS_OFF, demo_bp 1 0 0 2 ZIO_COMPRESS_OFF]"
    unfolding blkptrs_whole_records
    by (simp add: blkptrs_demo_ragged Insert_def DMU_OT_NONE_def del: One_nat_def)
  from T have "length (blkptrs ?e ?buff) = length ?buff div sizeof_blkptr_t ?e" by (rule conjunct1)
  then have len: "length (blkptrs ?e ?buff) = 7" by simp
  from T lvl rd ins
  have "ReadNext_loop (Suc (Suc 0)) ?e ?bp (replicate 1000 0) [] []
      = ReadNext_loop (Suc 0) ?e (demo_bp 1 0 0 1 ZIO_COMPRESS_OFF) ?buff
          [demo_bp 1 0 0 2 ZIO_COMPRESS_OFF] [(0, 512, 4608)]"
    by blast
  with lvl rd len show ?thesis by blast
qed

subsection \<open>BlockFile::Read: the range test and empty ranges\<close>

lemma size_bytes_extent: "extent b < 2 ^ 64 \<Longrightarrow> size_bytes (blk_lsize b) = extent b"
  by (simp add: size_bytes_def shl9_def add64_def extent_def mod_mult_left_eq)

lemma total_extent_simps [simp]:
  "total_extent [] = 0" "total_extent (b # bps) = extent b + total_extent bps"
  "total_extent (xs @ ys) = total_extent xs + total_extent ys"
  by (simp_all add: total_extent_def)

lemma extent_pos [simp]: "0 < extent b"
  by (simp add: extent_def)

lemma add64_small: "a + b < 2 ^ 64 \<Longrightarrow> add64 a b = a + b"
  by (simp add: add64_def)

lemma sub_mod_small:
  fixes a b M :: nat
  assumes "b \<le> a" and "a < M"
  shows "(a + M - b mod M) mod M = a - b"
proof -
  from assms have "b mod M = b" by simp
  moreover from assms have "a + M - b = (a - b) + M" by simp
  moreover from assms have "(a - b) mod M = a - b" by simp
  ultimately show ?thesis by (simp only: mod_add_self2)
qed

lemma sub64_small: "b \<le> a \<Longrightarrow> a < 2 ^ 64 \<Longrightarrow> sub64 a b = a - b"
  unfolding sub64_def by (rule sub_mod_small)

lemma Read_walk_beyond:
  "lstart + total_extent bps \<le> offset \<Longrightarrow> lstart + total_extent bps < 2 ^ 64 \<Longrightarrow>
   Read_walk e f bps k lstart dst sz offset log = Inr (False, dst, f, log)"
proof (induction bps arbitrary: k lstart)
  case Nil
  show ?case by simp
next
  case (Cons b bps)
  from Cons.prems have small: "lstart + extent b < 2 ^ 64" and ext: "extent b < 2 ^ 64" by simp_all
  have next_eq: "add64 lstart (size_bytes (blk_lsize b)) = lstart + extent b"
    by (simp add: size_bytes_extent [OF ext] add64_small [OF small])
  from Cons.prems have "\<not> offset < lstart + extent b" by simp
  moreover have "Read_walk e f bps (Suc k) (lstart + extent b) dst sz offset log = Inr (False, dst, f, log)"
    using Cons.prems by (intro Cons.IH) simp_all
  ultimately show ?case by (simp add: next_eq Let_def)
qed

text \<open>
  What the range test of lines 301-306 gives. When the 64-bit sum \<^verbatim>\<open>offset + size\<close> that line
  301 forms exceeds the total logical size, \<^verbatim>\<open>Read\<close> returns \<^verbatim>\<open>false\<close> at line 305 with the
  device log, the destination and the file (its cache) as they were. The same holds for
  the sum of the numbers on a file whose \<open>m_lsize\<close> is the length of its leaves, as long as
  \<open>size\<close> and the file together are not longer than \<open>2 ^ 64\<close> bytes.
\<close>

lemma Read_rejects_beyond_end:
  "(m_lsize f < add64 offset sz \<longrightarrow>
      BlockFile_Read e f dst sz offset log = Inr (False, dst, f, log))
   \<and> (sized f \<and> m_lsize f < offset + sz \<and> offset < 2 ^ 64 \<and> sz + m_lsize f \<le> 2 ^ 64 \<longrightarrow>
      BlockFile_Read e f dst sz offset log = Inr (False, dst, f, log))"
proof (intro conjI impI)
  assume "m_lsize f < add64 offset sz"
  then show "BlockFile_Read e f dst sz offset log = Inr (False, dst, f, log)"
    by (simp add: BlockFile_Read_def)
next
  assume A: "sized f \<and> m_lsize f < offset + sz \<and> offset < 2 ^ 64 \<and> sz + m_lsize f \<le> 2 ^ 64"
  show "BlockFile_Read e f dst sz offset log = Inr (False, dst, f, log)"
  proof (cases "m_lsize f < add64 offset sz")
    case True
    then show ?thesis by (simp add: BlockFile_Read_def)
  next
    case False
    with A have "\<not> offset + sz < 2 ^ 64" by (auto simp: add64_small)
    with A have "m_lsize f \<le> offset" by simp
    with A have "Read_walk e f (m_bpl f) 0 0 dst sz offset log = Inr (False, dst, f, log)"
      by (intro Read_walk_beyond) (simp_all add: sized_def)
    with False show ?thesis by (simp add: BlockFile_Read_def)
  qed
qed

lemma sized_demo_file: "sized demo_file"
  by (simp add: sized_def demo_file_def extent_def)

text \<open>
  C6 fails on the source. The file has two leaves and a total logical size of 1024 bytes.
  For \<open>offset = 1\<close> and \<open>size = 2 ^ 64 - 1\<close> the sum \<open>offset + size\<close> exceeds the total size,
  but the 64-bit sum of line 301 is 0 and passes the test of line 303. \<^verbatim>\<open>Read\<close> then reads
  both leaves from the device and copies 1023 bytes into the destination before it
  returns \<^verbatim>\<open>false\<close> at line 369 (a build that checks assertions stops at line 367).
\<close>

theorem Read_range_test_wraps:
  "m_lsize demo_file < 1 + 18446744073709551615
   \<and> add64 1 18446744073709551615 = 0
   \<and> BlockFile_Read (demo_env False) demo_file (replicate 1024 9) 18446744073709551615 1 []
       = Inr (False, replicate 511 1 @ replicate 512 2 @ [9],
              demo_file\<lparr>m_cache_bp := Leaf 1, m_cache_buff := replicate 512 2\<rparr>,
              [(0, 512, 512), (0, 512, 1024)])
   \<and> BlockFile_Read (demo_env True) demo_file (replicate 1024 9) 18446744073709551615 1 []
       = Inl AssertionFailed"
  by (simp add: BlockFile_Read_def demo_file_def add64_def sub64_def refill_def Pool_Read_def
      Read_demo_OFF demo_disk_other peek_def poke_def Read_done_def ASSERT_def)

lemma refill_succeeds:
  assumes "m_cache_bp f \<noteq> Uninitialised"
      and "\<forall>buf log. \<exists>d log'. rd buf b log = Inr (True, d, log')"
  shows "\<exists>f' log'. refill rd f k b log = Inr (True, f', log') \<and> m_cache_bp f' \<noteq> Uninitialised"
proof (cases "m_cache_bp f = Leaf k")
  case True
  then show ?thesis by (simp add: refill_def)
next
  case False
  from assms(2) obtain d log' where "rd (m_cache_buff f) b log = Inr (True, d, log')" by blast
  with False assms(1) show ?thesis by (cases "m_cache_bp f") (simp_all add: refill_def)
qed

lemma Read_rest_zero: "Read_rest e f bps k dst p 0 log = Inr (True, dst, f, log)"
  by (cases bps) (simp_all add: Read_done_def ASSERT_def)

lemma Read_walk_zero:
  assumes "m_cache_bp f \<noteq> Uninitialised" and "\<forall>b \<in> set bps. succeeds e b"
      and "lstart \<le> offset" and "offset < lstart + total_extent bps"
      and "lstart + total_extent bps < 2 ^ 64"
  shows "\<exists>f' log'. Read_walk e f bps k lstart dst 0 offset log = Inr (True, dst, f', log')"
  using assms(2-)
proof (induction bps arbitrary: k lstart)
  case Nil
  then show ?case by simp
next
  case (Cons b bps)
  from Cons.prems have small: "lstart + extent b < 2 ^ 64" and ext: "extent b < 2 ^ 64" by simp_all
  have next_eq: "add64 lstart (size_bytes (blk_lsize b)) = lstart + extent b"
    by (simp add: size_bytes_extent [OF ext] add64_small [OF small])
  show ?case
  proof (cases "offset < lstart + extent b")
    case True
    from Cons.prems(1) have "\<forall>buf log. \<exists>d log'. Pool_Read e buf b log = Inr (True, d, log')"
      by (simp add: succeeds_def Pool_Read_def)
    from refill_succeeds [where rd = "Pool_Read e", OF assms(1) this, of k log]
    obtain f' log' where "refill (Pool_Read e) f k b log = Inr (True, f', log')" by blast
    with True show ?thesis
      by (simp add: next_eq Let_def peek_def poke_def Read_rest_zero)
  next
    case False
    with Cons.prems
    have "\<exists>f' log'. Read_walk e f bps (Suc k) (lstart + extent b) dst 0 offset log
            = Inr (True, dst, f', log')"
      by (intro Cons.IH) simp_all
    with False show ?thesis by (simp add: next_eq Let_def)
  qed
qed

text \<open>
  C10. On a file whose leaves all resolve, \<^verbatim>\<open>Read(dst, 0, offset)\<close> returns \<^verbatim>\<open>true\<close> and leaves
  \<open>dst\<close> as it was for every \<open>offset\<close> below the total logical size (it may load the leaf at
  \<open>offset\<close> into the cache), and returns \<^verbatim>\<open>false\<close> for \<open>offset\<close> equal to the total logical
  size: the range test passes, and the walk over the leaves finds none that holds \<open>offset\<close>.
  The witness has both, and the empty file with \<open>offset = 0\<close>.
\<close>

theorem zero_length_read:
  assumes "sized f" and "m_cache_bp f \<noteq> Uninitialised" and "\<forall>b \<in> set (m_bpl f). succeeds e b"
  shows "(offset < m_lsize f \<longrightarrow>
            (\<exists>f' log'. BlockFile_Read e f dst 0 offset log = Inr (True, dst, f', log')))
         \<and> (offset = m_lsize f \<longrightarrow> BlockFile_Read e f dst 0 offset log = Inr (False, dst, f, log))"
proof (intro conjI impI)
  assume lt: "offset < m_lsize f"
  with assms(1) have "offset < 2 ^ 64" by (simp add: sized_def)
  then have e0: "add64 offset 0 = offset" by (simp add: add64_def)
  from assms lt
  have "\<exists>f' log'. Read_walk e f (m_bpl f) 0 0 dst 0 offset log = Inr (True, dst, f', log')"
    by (intro Read_walk_zero) (simp_all add: sized_def)
  with lt show "\<exists>f' log'. BlockFile_Read e f dst 0 offset log = Inr (True, dst, f', log')"
    by (simp add: BlockFile_Read_def e0)
next
  assume eq: "offset = m_lsize f"
  with assms(1) have "offset < 2 ^ 64" by (simp add: sized_def)
  then have e0: "add64 offset 0 = offset" by (simp add: add64_def)
  from assms(1) eq
  have "Read_walk e f (m_bpl f) 0 0 dst 0 offset log = Inr (False, dst, f, log)"
    by (intro Read_walk_beyond) (simp_all add: sized_def)
  with eq show "BlockFile_Read e f dst 0 offset log = Inr (False, dst, f, log)"
    by (simp add: BlockFile_Read_def e0)
qed

lemma succeeds_demo: "s < 2 ^ 55 \<Longrightarrow> succeeds (demo_env a) (demo_bp t l 0 s ZIO_COMPRESS_OFF)"
  by (simp add: succeeds_def Read_demo_OFF)

theorem zero_length_read_witness:
  "sized demo_file \<and> m_cache_bp demo_file = Null \<and> m_lsize demo_file = 1024
   \<and> BlockFile_Read (demo_env True) demo_file [9, 9] 0 1023 []
       = Inr (True, [9, 9],
              demo_file\<lparr>m_cache_bp := Leaf 1, m_cache_buff := replicate 512 2\<rparr>, [(0, 512, 1024)])
   \<and> BlockFile_Read (demo_env True) demo_file [9, 9] 0 1024 [] = Inr (False, [9, 9], demo_file, [])
   \<and> sized empty_file \<and> m_lsize empty_file = 0
   \<and> BlockFile_Read (demo_env True) empty_file [9, 9] 0 0 [] = Inr (False, [9, 9], empty_file, [])"
proof -
  have ok: "\<forall>b \<in> set (m_bpl demo_file). succeeds (demo_env True) b"
    by (simp add: demo_file_def succeeds_demo)
  have c: "m_cache_bp demo_file \<noteq> Uninitialised" by (simp add: demo_file_def)
  have se: "sized empty_file" by (simp add: sized_def empty_file_def)
  have ce: "m_cache_bp empty_file \<noteq> Uninitialised" by (simp add: empty_file_def)
  have oke: "\<forall>b \<in> set (m_bpl empty_file). succeeds (demo_env True) b" by (simp add: empty_file_def)
  have r1: "BlockFile_Read (demo_env True) demo_file [9, 9] 0 1023 []
       = Inr (True, [9, 9],
              demo_file\<lparr>m_cache_bp := Leaf 1, m_cache_buff := replicate 512 2\<rparr>, [(0, 512, 1024)])"
    by (simp add: BlockFile_Read_def demo_file_def add64_def refill_def Pool_Read_def Read_demo_OFF
        demo_disk_other peek_def poke_def Read_done_def ASSERT_def)
  from zero_length_read [OF sized_demo_file c ok, of 1024 "[9, 9]" "[]"]
  have r2: "BlockFile_Read (demo_env True) demo_file [9, 9] 0 1024 [] = Inr (False, [9, 9], demo_file, [])"
    by (simp add: demo_file_def)
  from zero_length_read [OF se ce oke, of 0 "[9, 9]" "[]"]
  have r3: "BlockFile_Read (demo_env True) empty_file [9, 9] 0 0 [] = Inr (False, [9, 9], empty_file, [])"
    by (simp add: empty_file_def)
  have m: "m_cache_bp demo_file = Null" "m_lsize demo_file = 1024" "m_lsize empty_file = 0"
    by (simp_all add: demo_file_def empty_file_def)
  from r1 r2 r3 sized_demo_file se m show ?thesis by blast
qed

subsection \<open>BlockFile::Read on a file whose leaves resolve\<close>

lemma resolvesD: "resolves e b \<Longrightarrow> \<exists>log'. Read e buf b log = Inr (True, payload e b, log')"
  by (simp add: resolves_def)

lemma drop_eq_ConsD:
  assumes "drop n xs = y # ys"
  shows "n < length xs \<and> xs ! n = y \<and> drop (Suc n) xs = ys"
proof -
  from assms have n: "n < length xs" by (cases "n < length xs") simp_all
  from Cons_nth_drop_Suc [OF n] assms show ?thesis using n by simp
qed

lemma refill_resolves:
  assumes "cache_ok e f" and "k < length (m_bpl f)" and "m_bpl f ! k = b"
      and rd: "\<forall>buf log. \<exists>log'. rd buf b log = Inr (True, payload e b, log')"
  shows "\<exists>f' log'. refill rd f k b log = Inr (True, f', log') \<and> m_cache_buff f' = payload e b
           \<and> cache_ok e f' \<and> m_bpl f' = m_bpl f \<and> m_lsize f' = m_lsize f"
proof (cases "m_cache_bp f = Leaf k")
  case True
  with assms(1,3) show ?thesis by (simp add: refill_def cache_ok_def)
next
  case False
  from rd obtain log' where R: "rd (m_cache_buff f) b log = Inr (True, payload e b, log')" by blast
  from assms(1) have "m_cache_bp f \<noteq> Uninitialised" by (auto simp: cache_ok_def)
  with False R have "refill rd f k b log
      = Inr (True, f\<lparr>m_cache_bp := Leaf k, m_cache_buff := payload e b\<rparr>, log')"
    by (cases "m_cache_bp f") (simp_all add: refill_def)
  with assms(2,3) show ?thesis by (simp add: cache_ok_def)
qed

lemma splice_rest:
  fixes dst d rest :: "'a list"
  assumes "n = min sz (length d)" and "p + sz \<le> length dst"
  shows "take (p + n) (take p dst @ take n d @ drop (p + n) dst) @ take (sz - n) rest
           @ drop (p + n + (sz - n)) (take p dst @ take n d @ drop (p + n) dst)
         = take p dst @ take sz (d @ rest) @ drop (p + sz) dst"
proof -
  from assms have n: "n \<le> sz" "n \<le> length d" by simp_all
  from assms have l: "length (take p dst @ take n d) = p + n" by simp
  have a: "take (p + n) (take p dst @ take n d @ drop (p + n) dst) = take p dst @ take n d"
    using l by (metis append.assoc append_eq_conv_conj)
  have b: "drop (p + n + (sz - n)) (take p dst @ take n d @ drop (p + n) dst) = drop (p + sz) dst"
  proof -
    have "drop (p + n + (sz - n)) ((take p dst @ take n d) @ drop (p + n) dst)
        = drop (sz - n) (drop (p + n) dst)"
      using l by (simp del: append_assoc)
    with n show ?thesis by (simp add: add.commute)
  qed
  have c: "take sz (d @ rest) = take n d @ take (sz - n) rest"
  proof (cases "sz \<le> length d")
    case True
    with assms show ?thesis by (simp add: min_absorb1)
  next
    case False
    with assms show ?thesis by (simp add: min_absorb2)
  qed
  from a b c show ?thesis by simp
qed

lemma Read_rest_spec:
  "\<forall>b \<in> set bps. resolves e b \<and> length (payload e b) = extent b \<Longrightarrow>
   total_extent bps < 2 ^ 64 \<Longrightarrow> cache_ok e f \<Longrightarrow> bps = drop (Suc k) (m_bpl f) \<Longrightarrow>
   sz \<le> total_extent bps \<Longrightarrow> p + sz \<le> length dst \<Longrightarrow>
   \<exists>f' log'. Read_rest e f bps k dst p sz log
       = Inr (True, take p dst @ take sz (concat (map (payload e) bps)) @ drop (p + sz) dst, f', log')
     \<and> cache_ok e f' \<and> m_bpl f' = m_bpl f \<and> m_lsize f' = m_lsize f"
proof (induction bps arbitrary: f k dst p sz log)
  case Nil
  then show ?case by (simp add: Read_done_def ASSERT_def)
next
  case (Cons b bps)
  show ?case
  proof (cases "sz = 0")
    case True
    with Cons.prems(3) show ?thesis by (simp add: Read_rest_zero)
  next
    case False
    let ?d = "payload e b"
    from Cons.prems(1) have res: "resolves e b" and len: "length ?d = extent b" by simp_all
    from Cons.prems(2) have ext: "extent b < 2 ^ 64" by simp
    from drop_eq_ConsD [OF Cons.prems(4) [symmetric]]
    have k: "Suc k < length (m_bpl f)" "m_bpl f ! Suc k = b" "bps = drop (Suc (Suc k)) (m_bpl f)"
      by simp_all
    from res have "\<forall>buf log. \<exists>log'. Read e buf b log = Inr (True, ?d, log')"
      by (simp add: resolves_def)
    from refill_resolves [where rd = "Read e", OF Cons.prems(3) k(1,2) this, of log]
    obtain f1 log1 where F: "refill (Read e) f (Suc k) b log = Inr (True, f1, log1)"
        "m_cache_buff f1 = ?d" "cache_ok e f1" "m_bpl f1 = m_bpl f" "m_lsize f1 = m_lsize f"
      by blast
    define n where "n = min sz (extent b)"
    from False have npos: "0 < n" by (simp add: n_def)
    have nle: "n \<le> length ?d" "n \<le> sz" by (simp_all add: n_def len)
    have pk: "peek ?d 0 n = Inr (take n ?d)" using npos nle by (simp add: peek_def)
    from npos nle have ne: "take n ?d \<noteq> []" by auto
    from nle Cons.prems(6) have "p + length (take n ?d) \<le> length dst" by simp
    with ne have po: "poke dst p (take n ?d) = Inr (take p dst @ take n ?d @ drop (p + n) dst)"
      using nle by (simp add: poke_def min_absorb2)
    let ?dst1 = "take p dst @ take n ?d @ drop (p + n) dst"
    have l1: "length ?dst1 = length dst" using nle Cons.prems(6) by simp
    have sz1: "sz - n \<le> total_extent bps" using Cons.prems(5) by (auto simp: n_def)
    from Cons.prems(1) have all: "\<forall>b \<in> set bps. resolves e b \<and> length (payload e b) = extent b"
      by simp
    from Cons.prems(2) have tot: "total_extent bps < 2 ^ 64" by simp
    from k(3) F(4) have dr: "bps = drop (Suc (Suc k)) (m_bpl f1)" by simp
    from nle Cons.prems(6) l1 have fit: "(p + n) + (sz - n) \<le> length ?dst1" by simp
    from Cons.IH [OF all tot F(3) dr sz1 fit, of log1]
    obtain f2 log2 where R: "Read_rest e f1 bps (Suc k) ?dst1 (p + n) (sz - n) log1
        = Inr (True, take (p + n) ?dst1 @ take (sz - n) (concat (map (payload e) bps))
                 @ drop (p + n + (sz - n)) ?dst1, f2, log2)"
        "cache_ok e f2" "m_bpl f2 = m_bpl f1" "m_lsize f2 = m_lsize f1"
      by blast
    have n': "n = min sz (length ?d)" by (simp add: n_def len)
    note sp = splice_rest [OF n' Cons.prems(6), of "concat (map (payload e) bps)"]
    have "Read_rest e f (b # bps) k dst p sz log
        = Read_rest e f1 bps (Suc k) ?dst1 (p + n) (sz - n) log1"
      using False F(1,2) pk po by (simp add: size_bytes_extent [OF ext] n_def [symmetric])
    with R sp F(4,5) show ?thesis by simp
  qed
qed

lemma splice_first:
  fixes dst d rest :: "'a list"
  assumes "n = min sz (length d - i)" and "i < length d" and "sz \<le> length dst"
  shows "take n (take n (drop i d) @ drop n dst) @ take (sz - n) rest
           @ drop (n + (sz - n)) (take n (drop i d) @ drop n dst)
         = take sz (drop i (d @ rest)) @ drop sz dst"
proof -
  from assms have n: "n \<le> sz" "n \<le> length d - i" by simp_all
  then have l: "length (take n (drop i d)) = n" by simp
  have a: "take n (take n (drop i d) @ drop n dst) = take n (drop i d)" using l by simp
  have b: "drop (n + (sz - n)) (take n (drop i d) @ drop n dst) = drop sz dst"
    using l n by (simp add: add.commute)
  have c: "take sz (drop i (d @ rest)) = take n (drop i d) @ take (sz - n) rest"
  proof (cases "sz \<le> length d - i")
    case True
    with assms show ?thesis by (simp add: min_absorb1)
  next
    case False
    with assms show ?thesis by (simp add: min_absorb2)
  qed
  from a b c show ?thesis by simp
qed

lemma Read_walk_spec:
  "\<forall>b \<in> set bps. resolves e b \<and> length (payload e b) = extent b \<Longrightarrow>
   lstart + total_extent bps < 2 ^ 64 \<Longrightarrow> cache_ok e f \<Longrightarrow> bps = drop k (m_bpl f) \<Longrightarrow>
   lstart \<le> offset \<Longrightarrow> offset < lstart + total_extent bps \<Longrightarrow>
   offset + sz \<le> lstart + total_extent bps \<Longrightarrow> sz \<le> length dst \<Longrightarrow>
   \<exists>f' log'. Read_walk e f bps k lstart dst sz offset log
       = Inr (True, take sz (drop (offset - lstart) (concat (map (payload e) bps))) @ drop sz dst,
              f', log')
     \<and> cache_ok e f' \<and> m_bpl f' = m_bpl f \<and> m_lsize f' = m_lsize f"
proof (induction bps arbitrary: k lstart)
  case Nil
  then show ?case by simp
next
  case (Cons b bps)
  let ?d = "payload e b"
  let ?R = "concat (map (payload e) bps)"
  from Cons.prems(1) have res: "resolves e b" and len: "length ?d = extent b" by simp_all
  from Cons.prems(2) have small: "lstart + extent b < 2 ^ 64" and ext: "extent b < 2 ^ 64"
    by simp_all
  have next_eq: "add64 lstart (size_bytes (blk_lsize b)) = lstart + extent b"
    by (simp add: size_bytes_extent [OF ext] add64_small [OF small])
  from drop_eq_ConsD [OF Cons.prems(4) [symmetric]]
  have k: "k < length (m_bpl f)" "m_bpl f ! k = b" "bps = drop (Suc k) (m_bpl f)" by simp_all
  from Cons.prems(1) have all: "\<forall>b \<in> set bps. resolves e b \<and> length (payload e b) = extent b"
    by simp
  show ?case
  proof (cases "offset < lstart + extent b")
    case True
    from res have "\<forall>buf log. \<exists>log'. Pool_Read e buf b log = Inr (True, ?d, log')"
      by (simp add: resolves_def Pool_Read_def)
    from refill_resolves [where rd = "Pool_Read e", OF Cons.prems(3) k(1,2) this, of log]
    obtain f1 log1 where F: "refill (Pool_Read e) f k b log = Inr (True, f1, log1)"
        "m_cache_buff f1 = ?d" "cache_ok e f1" "m_bpl f1 = m_bpl f" "m_lsize f1 = m_lsize f"
      by blast
    define i where "i = offset - lstart"
    define n where "n = min sz (extent b - i)"
    from True Cons.prems(5) have i: "i < length ?d" by (simp add: i_def len)
    have s1: "sub64 (lstart + extent b) offset = extent b - i"
      using True small Cons.prems(5) by (simp add: sub64_small i_def)
    have s2: "sub64 offset lstart = i"
      using Cons.prems(5) True small by (simp add: sub64_small i_def)
    have nle: "n \<le> sz" "i + n \<le> length ?d" using i by (simp_all add: n_def len)
    have pk: "peek ?d i n = Inr (take n (drop i ?d))" using nle by (simp add: peek_def)
    have ln: "length (take n (drop i ?d)) = n" using nle by simp
    have po: "poke dst 0 (take n (drop i ?d)) = Inr (take n (drop i ?d) @ drop n dst)"
    proof (cases "n = 0")
      case True
      then show ?thesis by (simp add: poke_def)
    next
      case False
      with ln have "take n (drop i ?d) \<noteq> []" by auto
      moreover from nle Cons.prems(8) have "n \<le> length dst" by simp
      ultimately show ?thesis using ln by (simp add: poke_def)
    qed
    let ?dst1 = "take n (drop i ?d) @ drop n dst"
    have l1: "length ?dst1 = length dst" using ln nle Cons.prems(8) by simp
    from Cons.prems(2) have tot: "total_extent bps < 2 ^ 64" by simp
    from k(3) F(4) have dr: "bps = drop (Suc k) (m_bpl f1)" by simp
    have sz1: "sz - n \<le> total_extent bps"
      using Cons.prems(5,7) True by (auto simp: n_def i_def min_def)
    from nle Cons.prems(8) l1 have fit: "n + (sz - n) \<le> length ?dst1" by simp
    from Read_rest_spec [OF all tot F(3) dr sz1 fit, of log1]
    obtain f2 log2 where R: "Read_rest e f1 bps k ?dst1 n (sz - n) log1
        = Inr (True, take n ?dst1 @ take (sz - n) ?R @ drop (n + (sz - n)) ?dst1, f2, log2)"
        "cache_ok e f2" "m_bpl f2 = m_bpl f1" "m_lsize f2 = m_lsize f1"
      by blast
    have n': "n = min sz (length ?d - i)" by (simp add: n_def len)
    note sp = splice_first [OF n' i Cons.prems(8), of ?R]
    have "Read_walk e f (b # bps) k lstart dst sz offset log
        = Read_rest e f1 bps k ?dst1 n (sz - n) log1"
      using True F(1,2) pk po by (simp add: next_eq Let_def s1 s2 n_def [symmetric])
    with R sp F(4,5) show ?thesis by (simp add: i_def)
  next
    case False
    then have le: "lstart + extent b \<le> offset" by simp
    from Cons.prems(2,6,7) have p: "lstart + extent b + total_extent bps < 2 ^ 64"
        "offset < lstart + extent b + total_extent bps"
        "offset + sz \<le> lstart + extent b + total_extent bps"
      by (simp_all add: add.assoc)
    from Cons.IH [OF all p(1) Cons.prems(3) k(3) le p(2) p(3) Cons.prems(8)]
    obtain f' log' where R: "Read_walk e f bps (Suc k) (lstart + extent b) dst sz offset log
        = Inr (True, take sz (drop (offset - (lstart + extent b)) ?R) @ drop sz dst, f', log')"
        "cache_ok e f'" "m_bpl f' = m_bpl f" "m_lsize f' = m_lsize f"
      by blast
    from le len have "drop (offset - lstart) (?d @ ?R) = drop (offset - (lstart + extent b)) ?R"
      by simp
    with R False show ?thesis by (simp add: next_eq Let_def)
  qed
qed

subsection \<open>The constructor and the stream expand the same tree\<close>

lemma closed_treeD:
  assumes "closed_tree e S" and "b \<in> S"
  shows "resolves e b" and "blk_lvl b = 0 \<Longrightarrow> length (payload e b) = extent b"
    and "0 < blk_lvl b \<Longrightarrow> set (Insert bpl (blkptrs e (payload e b))) \<subseteq> S \<union> set bpl"
proof -
  from assms show "resolves e b" by (simp add: closed_tree_def)
  from assms show "blk_lvl b = 0 \<Longrightarrow> length (payload e b) = extent b" by (simp add: closed_tree_def)
  assume "0 < blk_lvl b"
  with assms have "set (Insert [] (blkptrs e (payload e b))) \<subseteq> S" by (simp add: closed_tree_def)
  then show "set (Insert bpl (blkptrs e (payload e b))) \<subseteq> S \<union> set bpl"
    by (auto simp: Insert_filter)
qed

lemma descend_leaf:
  assumes "closed_tree e S"
  shows "bp \<in> S \<Longrightarrow> set bpl \<subseteq> S \<Longrightarrow>
     BlockFile_descend n e bp bpl log = Some (Inr (x, bpl', log')) \<Longrightarrow>
     \<exists>leaf. x = Some leaf \<and> leaf \<in> S \<and> blk_lvl leaf = 0 \<and> set bpl' \<subseteq> S
       \<and> (\<forall>m buff lg res. ReadNext_loop m e bp buff bpl lg = Some res \<longrightarrow>
             (\<exists>lg'. res = Inr (True, payload e leaf, bpl', lg')))"
proof (induction n arbitrary: bp bpl log)
  case 0
  then show ?case by simp
next
  case (Suc n)
  note res = closed_treeD(1) [OF assms Suc.prems(1)]
  show ?case
  proof (cases "0 < blk_lvl bp")
    case False
    with Suc.prems(3) have x: "x = Some bp" "bpl' = bpl" by simp_all
    have "\<exists>lg'. res = Inr (True, payload e bp, bpl, lg')"
      if "ReadNext_loop m e bp buff bpl lg = Some res" for m buff lg res
    proof (cases m)
      case 0
      with that show ?thesis by simp
    next
      case (Suc m')
      from resolvesD [OF res, of buff lg] obtain lg' where
        "Read e buff bp lg = Inr (True, payload e bp, lg')" ..
      with that Suc False show ?thesis by auto
    qed
    with x False Suc.prems(1,2) show ?thesis by simp
  next
    case True
    let ?d = "payload e bp"
    from resolvesD [OF res, of "[]" log] obtain log1 where
      R: "Read e [] bp log = Inr (True, ?d, log1)" ..
    show ?thesis
    proof (cases "Insert bpl (blkptrs e ?d)")
      case Nil
      with True R Suc.prems(3) show ?thesis by simp
    next
      case (Cons bp1 bpl1)
      from closed_treeD(3) [OF assms Suc.prems(1) True, of bpl] Cons Suc.prems(2)
      have in1: "bp1 \<in> S" "set bpl1 \<subseteq> S" by auto
      from True R Cons Suc.prems(3)
      have D: "BlockFile_descend n e bp1 bpl1 log1 = Some (Inr (x, bpl', log'))" by simp
      from Suc.IH [OF in1 D] obtain leaf where L: "x = Some leaf" "leaf \<in> S" "blk_lvl leaf = 0"
          "set bpl' \<subseteq> S"
          "\<forall>m buff lg res. ReadNext_loop m e bp1 buff bpl1 lg = Some res \<longrightarrow>
             (\<exists>lg'. res = Inr (True, payload e leaf, bpl', lg'))"
        by blast
      have "\<exists>lg'. res = Inr (True, payload e leaf, bpl', lg')"
        if "ReadNext_loop m e bp buff bpl lg = Some res" for m buff lg res
      proof (cases m)
        case 0
        with that show ?thesis by simp
      next
        case (Suc m')
        from resolvesD [OF res, of buff lg] obtain lg1 where
          "Read e buff bp lg = Inr (True, ?d, lg1)" ..
        with that Suc True Cons have "ReadNext_loop m' e bp1 ?d bpl1 lg1 = Some res" by simp
        with L(5) show ?thesis by blast
      qed
      with L show ?thesis by blast
    qed
  qed
qed

lemma shl9_mod: "shl9 (a mod 2 ^ 64) = shl9 a"
  by (simp add: shl9_def mod_mult_left_eq)

lemma add64_mod: "(add64 a b + c) mod 2 ^ 64 = (a + (b + c)) mod 2 ^ 64"
  by (simp add: add64_def mod_add_left_eq add.assoc)

lemma ReadToEnd_loop_step:
  assumes "ReadNext (Suc n) e bpl buff lg = Some (Inr (True, d, bpl1, lg1))"
  shows "ReadToEnd_loop (Suc n) e bpl buff dst (length dst) lg
           = ReadToEnd_loop n e bpl1 d (dst @ d) (length (dst @ d)) lg1"
  using assms by (cases "d = []") (simp_all add: poke_def resize_def)

lemma loop_leaves:
  assumes "closed_tree e S"
  shows "set bpl \<subseteq> S \<Longrightarrow> BlockFile_loop n e bpl l ps ls log = Some (Inr (f, log')) \<Longrightarrow>
     \<exists>leaves. m_bpl f = l @ leaves \<and> set leaves \<subseteq> S \<and> (\<forall>b \<in> set leaves. blk_lvl b = 0)
       \<and> m_cache_bp f = Null
       \<and> m_lsize f = shl9 ((ls + sum_list (map (\<lambda>b. blk_lsize b + 1) leaves)) mod 2 ^ 64)
       \<and> (\<forall>m buff dst lg res. ReadToEnd_loop m e bpl buff dst (length dst) lg = Some res \<longrightarrow>
             (\<exists>bpl'' lg'. res = Inr (True, dst @ concat (map (payload e) leaves), bpl'', lg')))"
proof (induction n arbitrary: bpl l ps ls log)
  case 0
  then show ?case by simp
next
  case (Suc n)
  show ?case
  proof (cases bpl)
    case Nil
    have "\<exists>bpl'' lg'. res = Inr (True, dst, bpl'', lg')"
      if "ReadToEnd_loop m e [] buff dst (length dst) lg = Some res" for m buff dst lg res
      using that by (cases m) (auto simp: ReadNext_def)
    moreover have "shl9 ls = shl9 ((ls + sum_list (map (\<lambda>b. blk_lsize b + 1) [])) mod 2 ^ 64)"
      by (simp only: shl9_mod list.map sum_list.Nil add_0_right)
    moreover from Nil Suc.prems(2) have "m_bpl f = l @ []" "m_cache_bp f = Null" "m_lsize f = shl9 ls"
      by auto
    ultimately show ?thesis unfolding Nil by (intro exI [of _ "[]"]) (simp del: shl9_mod)
  next
    case (Cons bp rest)
    from Cons Suc.prems(1) have in0: "bp \<in> S" "set rest \<subseteq> S" by simp_all
    show ?thesis
    proof (cases "BlockFile_descend (Suc n) e bp rest log")
      case None
      with Cons Suc.prems(2) show ?thesis by simp
    next
      case (Some r)
      show ?thesis
      proof (cases r)
        case (Inl x)
        with Cons Some Suc.prems(2) show ?thesis by simp
      next
        case (Inr t)
        obtain x bpl1 log1 where t: "t = (x, bpl1, log1)" by (cases t)
        from Some Inr t
        have D: "BlockFile_descend (Suc n) e bp rest log = Some (Inr (x, bpl1, log1))" by simp
        from descend_leaf [OF assms in0 D] obtain leaf where L: "x = Some leaf" "leaf \<in> S"
            "blk_lvl leaf = 0" "set bpl1 \<subseteq> S"
            "\<forall>m buff lg res. ReadNext_loop m e bp buff rest lg = Some res \<longrightarrow>
               (\<exists>lg'. res = Inr (True, payload e leaf, bpl1, lg'))"
          by blast
        from Cons D L(1) Suc.prems(2)
        have "BlockFile_loop n e bpl1 (l @ [leaf]) (add64 ps (blk_psize leaf + 1))
                (add64 ls (blk_lsize leaf + 1)) log1 = Some (Inr (f, log'))"
          by simp
        from Suc.IH [OF L(4) this] obtain leaves where I: "m_bpl f = (l @ [leaf]) @ leaves"
            "set leaves \<subseteq> S" "\<forall>b \<in> set leaves. blk_lvl b = 0" "m_cache_bp f = Null"
            "m_lsize f = shl9 ((add64 ls (blk_lsize leaf + 1)
                + sum_list (map (\<lambda>b. blk_lsize b + 1) leaves)) mod 2 ^ 64)"
            "\<forall>m buff dst lg res. ReadToEnd_loop m e bpl1 buff dst (length dst) lg = Some res \<longrightarrow>
               (\<exists>bpl'' lg'. res = Inr (True, dst @ concat (map (payload e) leaves), bpl'', lg'))"
          by blast
        have stream: "\<exists>bpl'' lg'. res = Inr (True, dst @ concat (map (payload e) (leaf # leaves)), bpl'', lg')"
          if T: "ReadToEnd_loop m e (bp # rest) buff dst (length dst) lg = Some res"
          for m buff dst lg res
        proof (cases m)
          case 0
          with T show ?thesis by simp
        next
          case (Suc m')
          show ?thesis
          proof (cases "ReadNext_loop (Suc m') e bp buff rest lg")
            case None
            with T Suc show ?thesis by (simp add: ReadNext_def)
          next
            case (Some r1)
            with L(5) obtain lg1 where r1: "r1 = Inr (True, payload e leaf, bpl1, lg1)" by blast
            let ?d = "payload e leaf"
            from Some r1 have "ReadNext (Suc m') e (bp # rest) buff lg = Some (Inr (True, ?d, bpl1, lg1))"
              by (simp add: ReadNext_def)
            from ReadToEnd_loop_step [OF this, of dst] T Suc
            have "ReadToEnd_loop m' e bpl1 ?d (dst @ ?d) (length (dst @ ?d)) lg1 = Some res"
              by simp
            with I(6) show ?thesis by fastforce
          qed
        qed
        have c1: "m_bpl f = l @ (leaf # leaves)" using I(1) by simp
        have c2: "set (leaf # leaves) \<subseteq> S" using I(2) L(2) by simp
        have c3: "\<forall>b \<in> set (leaf # leaves). blk_lvl b = 0" using I(3) L(3) by simp
        have c5: "m_lsize f
            = shl9 ((ls + sum_list (map (\<lambda>b. blk_lsize b + 1) (leaf # leaves))) mod 2 ^ 64)"
          unfolding I(5) by (simp only: add64_mod list.map sum_list.Cons)
        have c6: "\<forall>m buff dst lg res.
            ReadToEnd_loop m e bpl buff dst (length dst) lg = Some res \<longrightarrow>
            (\<exists>bpl'' lg'. res = Inr (True, dst @ concat (map (payload e) (leaf # leaves)), bpl'', lg'))"
          unfolding Cons using stream by blast
        from c1 c2 c3 I(4) c5 c6 show ?thesis by blast
      qed
    qed
  qed
qed

lemma shl9_sum_extent:
  "shl9 (sum_list (map (\<lambda>b. blk_lsize b + 1) bps) mod 2 ^ 64) = total_extent bps mod 2 ^ 64"
proof -
  have "total_extent bps = sum_list (map (\<lambda>b. blk_lsize b + 1) bps) * 512"
    by (induction bps) (simp_all add: extent_def)
  moreover have "shl9 (sum_list (map (\<lambda>b. blk_lsize b + 1) bps) mod 2 ^ 64)
      = (sum_list (map (\<lambda>b. blk_lsize b + 1) bps) * 512) mod 2 ^ 64"
    unfolding shl9_mod by (simp only: shl9_def)
  ultimately show ?thesis by (simp only:)
qed

subsection \<open>BlockFile::Read against ReadToEnd\<close>

text \<open>
  C5, as the source has it. Let \<open>S\<close> be a set of descriptors that holds the descriptors of
  the set \<open>bp\<close> that \<^verbatim>\<open>Insert\<close> keeps, and is closed under expansion, each member resolving
  whatever the destination buffer held and each leaf to exactly its logical length
  \<open>(lsize + 1) * 512\<close>. Let the construction of a \<^verbatim>\<open>BlockFile\<close> over \<open>bp\<close> return the file \<open>f\<close>,
  with leaves of less than \<open>2 ^ 64\<close> bytes in all, and let \<^verbatim>\<open>ReadToEnd\<close> of a \<^verbatim>\<open>BlockStream\<close> over
  \<open>bp\<close> return the bytes \<open>out\<close>. Then \<open>out\<close> has the total logical size of \<open>f\<close>, and for \<open>f\<close> in any
  state \<open>g\<close> of its cache that reads can leave, every \<open>offset\<close> and \<open>sz\<close> with
  \<open>offset + sz\<close> within the total logical size, and a destination of at least \<open>sz\<close> bytes:
  \<^verbatim>\<open>Read(dst, sz, offset)\<close> puts the bytes \<open>offset ..< offset + sz\<close> of \<open>out\<close> into the first \<open>sz\<close>
  bytes of \<open>dst\<close>, leaves the rest of \<open>dst\<close>, and leaves the cache in such a state again. It
  returns \<^verbatim>\<open>true\<close>, except for the empty range at the end of the file (\<open>offset\<close> the total
  size), where it returns \<^verbatim>\<open>false\<close>.
\<close>

theorem Read_agrees_with_ReadToEnd:
  assumes tree: "closed_tree e S" and roots: "set (BlockReader bp) \<subseteq> S"
      and built: "BlockFile_new n e bp log0 = Some (Inr (f, log1))"
      and streamed: "ReadToEnd m e (BlockStream bp) lg0 = Some (Inr (ok, out, bpl', lg1))"
      and total: "total_extent (m_bpl f) < 2 ^ 64"
      and later: "m_bpl g = m_bpl f" "m_lsize g = m_lsize f" "cache_ok e g"
      and range: "offset + sz \<le> m_lsize f" and room: "sz \<le> length dst"
  shows "\<exists>g' log'. BlockFile_Read e g dst sz offset log
             = Inr (offset < m_lsize f, take sz (drop offset out) @ drop sz dst, g', log')
           \<and> m_bpl g' = m_bpl f \<and> m_lsize g' = m_lsize f \<and> cache_ok e g'
           \<and> cache_ok e f \<and> length out = m_lsize f"
proof -
  from built have "BlockFile_loop n e (BlockReader bp) [] 0 0 log0 = Some (Inr (f, log1))"
    by (simp add: BlockFile_new_def)
  from loop_leaves [OF tree roots this] obtain leaves where L: "m_bpl f = [] @ leaves"
      "set leaves \<subseteq> S" "\<forall>b \<in> set leaves. blk_lvl b = 0" "m_cache_bp f = Null"
      "m_lsize f = shl9 ((0 + sum_list (map (\<lambda>b. blk_lsize b + 1) leaves)) mod 2 ^ 64)"
      "\<forall>m buff dst lg res.
         ReadToEnd_loop m e (BlockReader bp) buff dst (length dst) lg = Some res \<longrightarrow>
         (\<exists>bpl'' lg'. res = Inr (True, dst @ concat (map (payload e) leaves), bpl'', lg'))"
    by blast
  from L(1) have leaves: "m_bpl f = leaves" by simp
  from streamed have "ReadToEnd_loop m e (BlockReader bp) [] [] (length ([] :: bytes)) lg0
      = Some (Inr (ok, out, bpl', lg1))"
    by (simp add: ReadToEnd_def BlockStream_def)
  with L(6) have out: "out = concat (map (payload e) leaves)" by fastforce
  have all: "\<forall>b \<in> set leaves. resolves e b \<and> length (payload e b) = extent b"
    using L(2,3) closed_treeD(1,2) [OF tree] by blast
  from L(5) have "m_lsize f = total_extent leaves mod 2 ^ 64"
    by (simp only: add_0 shl9_sum_extent)
  with total leaves have lsize: "m_lsize f = total_extent leaves" by simp
  have "length (concat (map (payload e) bps)) = total_extent bps"
    if "\<forall>b \<in> set bps. resolves e b \<and> length (payload e b) = extent b" for bps
    using that by (induction bps) simp_all
  from this [OF all] out lsize have len: "length out = m_lsize f" by simp
  from L(4) have cf: "cache_ok e f" by (simp add: cache_ok_def)
  from total leaves have tot: "total_extent leaves < 2 ^ 64" by simp
  from range lsize tot have e64: "add64 offset sz = offset + sz" by (simp add: add64_small)
  show ?thesis
  proof (cases "offset < m_lsize f")
    case True
    from tot have a: "0 + total_extent leaves < 2 ^ 64" by simp
    from later(1) leaves have b: "leaves = drop 0 (m_bpl g)" by simp
    from True lsize have c: "offset < 0 + total_extent leaves" by simp
    from range lsize have d: "offset + sz \<le> 0 + total_extent leaves" by simp
    from Read_walk_spec [OF all a later(3) b _ c d room, of log]
    obtain g' log' where "Read_walk e g leaves 0 0 dst sz offset log
        = Inr (True, take sz (drop (offset - 0) (concat (map (payload e) leaves))) @ drop sz dst,
               g', log')"
        "cache_ok e g'" "m_bpl g' = m_bpl g" "m_lsize g' = m_lsize g"
      by blast
    with True range later leaves out e64 cf len show ?thesis
      by (simp add: BlockFile_Read_def)
  next
    case False
    with range have z: "sz = 0" "offset = m_lsize f" by simp_all
    from lsize tot z have "Read_walk e g leaves 0 0 dst sz offset log = Inr (False, dst, g, log)"
      by (intro Read_walk_beyond) simp_all
    with False z later leaves cf len e64 show ?thesis by (simp add: BlockFile_Read_def)
  qed
qed

lemma replicate_2: "replicate 2 x = [x, x]"
  by (simp add: numeral_2_eq_2)

lemma replicate_4: "replicate 4 x = [x, x, x, x]"
  by (simp add: numeral_eq_Suc)

lemma payload_demo:
  "s < 2 ^ 55 \<Longrightarrow> payload (demo_env a) (demo_bp t l 0 s ZIO_COMPRESS_OFF) = demo_disk 512 (s * 512)"
  by (simp add: payload_def Read_demo_OFF)

lemma resolves_demo: "s < 2 ^ 55 \<Longrightarrow> resolves (demo_env a) (demo_bp t l 0 s ZIO_COMPRESS_OFF)"
  by (simp add: resolves_def payload_demo Read_demo_OFF)

lemma closed_tree_demo:
  "closed_tree (demo_env a)
     {demo_bp 1 1 0 9 ZIO_COMPRESS_OFF, demo_bp 1 0 0 1 ZIO_COMPRESS_OFF,
      demo_bp 1 0 0 2 ZIO_COMPRESS_OFF}"
  by (simp add: closed_tree_def resolves_demo payload_demo demo_disk_9 demo_disk_other
      blkptrs_demo_9 Insert_def DMU_OT_NONE_def extent_def del: One_nat_def)

lemma BlockFile_new_demo:
  "BlockFile_new (Suc (Suc (Suc 0))) (demo_env a) [demo_bp 1 1 0 9 ZIO_COMPRESS_OFF] []
     = Some (Inr (demo_file, [(0, 512, 4608)]))"
  by (simp add: BlockFile_new_def BlockReader_def Insert_def DMU_OT_NONE_def Read_demo_OFF
      demo_disk_9 blkptrs_demo_9 demo_file_def shl9_def add64_def del: One_nat_def)

lemma ReadToEnd_demo:
  "ReadToEnd (Suc (Suc (Suc 0))) (demo_env a) (BlockStream [demo_bp 1 1 0 9 ZIO_COMPRESS_OFF]) []
     = Some (Inr (True, replicate 512 1 @ replicate 512 2, [],
                  [(0, 512, 4608), (0, 512, 512), (0, 512, 1024)]))"
  by (simp add: ReadToEnd_def BlockStream_def BlockReader_def Insert_def DMU_OT_NONE_def
      ReadNext_def Read_demo_OFF demo_disk_9 demo_disk_other blkptrs_demo_9 poke_def resize_def
      del: One_nat_def)

text \<open>
  The witness is the file over the indirect block at sector 9, whose leaves are the sectors 1
  and 2; the range read has two bytes of each leaf.
\<close>

theorem Read_agrees_with_ReadToEnd_witness:
  "closed_tree (demo_env True)
     {demo_bp 1 1 0 9 ZIO_COMPRESS_OFF, demo_bp 1 0 0 1 ZIO_COMPRESS_OFF,
      demo_bp 1 0 0 2 ZIO_COMPRESS_OFF}
   \<and> BlockFile_new (Suc (Suc (Suc 0))) (demo_env True) [demo_bp 1 1 0 9 ZIO_COMPRESS_OFF] []
       = Some (Inr (demo_file, [(0, 512, 4608)]))
   \<and> ReadToEnd (Suc (Suc (Suc 0))) (demo_env True)
         (BlockStream [demo_bp 1 1 0 9 ZIO_COMPRESS_OFF]) []
       = Some (Inr (True, replicate 512 1 @ replicate 512 2, [],
                    [(0, 512, 4608), (0, 512, 512), (0, 512, 1024)]))
   \<and> m_lsize demo_file = 1024
   \<and> (\<exists>g' log'. BlockFile_Read (demo_env True) demo_file [9, 9, 9, 9, 9, 9] 4 510 []
                    = Inr (True, [1, 1, 2, 2, 9, 9], g', log'))"
proof -
  let ?S = "{demo_bp 1 1 0 9 ZIO_COMPRESS_OFF, demo_bp 1 0 0 1 ZIO_COMPRESS_OFF,
             demo_bp 1 0 0 2 ZIO_COMPRESS_OFF}"
  have roots: "set (BlockReader [demo_bp 1 1 0 9 ZIO_COMPRESS_OFF]) \<subseteq> ?S"
    by (simp add: BlockReader_def Insert_def DMU_OT_NONE_def)
  have total: "total_extent (m_bpl demo_file) < 2 ^ 64"
    by (simp add: demo_file_def extent_def)
  have cache: "cache_ok (demo_env True) demo_file" by (simp add: cache_ok_def demo_file_def)
  have lsize: "m_lsize demo_file = 1024" by (simp add: demo_file_def)
  have range: "510 + 4 \<le> m_lsize demo_file" by (simp add: lsize)
  have room: "4 \<le> length [9, 9, 9, 9, 9, 9 :: byte]" by simp
  from Read_agrees_with_ReadToEnd [OF closed_tree_demo roots BlockFile_new_demo ReadToEnd_demo
      total refl refl cache range room, of "[]"]
  obtain g' log' where "BlockFile_Read (demo_env True) demo_file [9, 9, 9, 9, 9, 9] 4 510 []
      = Inr (510 < m_lsize demo_file,
             take 4 (drop 510 (replicate 512 1 @ replicate 512 2)) @ drop 4 [9, 9, 9, 9, 9, 9],
             g', log')"
    by blast
  then have "BlockFile_Read (demo_env True) demo_file [9, 9, 9, 9, 9, 9] 4 510 []
      = Inr (True, [1, 1, 2, 2, 9, 9], g', log')"
    by (simp add: lsize replicate_2)
  with closed_tree_demo BlockFile_new_demo ReadToEnd_demo lsize show ?thesis by blast
qed

text \<open>
  C5 as stated fails. Both leaves of the set resolve: \<open>long_bp\<close>, uncompressed, to its 1024
  physical bytes, which is not its logical length of 512 bytes. \<^verbatim>\<open>ReadToEnd\<close> gives 1024 bytes
  of value 1 and 512 of value 2; the file has a total logical size of 1024 bytes, and
  \<^verbatim>\<open>Read(dst, 4, 510)\<close> gives 1, 1, 2, 2 where the stream has 1, 1, 1, 1.
\<close>

theorem Read_differs_from_ReadToEnd:
  "Read (demo_env True) [] long_bp [] = Inr (True, replicate 1024 1, [(0, 1024, 512)])
   \<and> Read (demo_env True) (replicate 1024 1) (demo_bp 1 0 0 2 ZIO_COMPRESS_OFF) [(0, 1024, 512)]
       = Inr (True, replicate 512 2, [(0, 1024, 512), (0, 512, 1024)])
   \<and> ReadToEnd (Suc (Suc (Suc 0))) (demo_env True)
         (BlockStream [long_bp, demo_bp 1 0 0 2 ZIO_COMPRESS_OFF]) []
       = Some (Inr (True, replicate 1024 1 @ replicate 512 2, [],
                    [(0, 1024, 512), (0, 512, 1024)]))
   \<and> BlockFile_new (Suc (Suc (Suc 0))) (demo_env True)
         [long_bp, demo_bp 1 0 0 2 ZIO_COMPRESS_OFF] []
       = Some (Inr (\<lparr>m_bpl = [long_bp, demo_bp 1 0 0 2 ZIO_COMPRESS_OFF], m_psize = 1536,
                      m_lsize = 1024, m_cache_bp = Null, m_cache_buff = []\<rparr>, []))
   \<and> BlockFile_Read (demo_env True)
         \<lparr>m_bpl = [long_bp, demo_bp 1 0 0 2 ZIO_COMPRESS_OFF], m_psize = 1536,
           m_lsize = 1024, m_cache_bp = Null, m_cache_buff = []\<rparr> [9, 9, 9, 9] 4 510 []
       = Inr (True, [1, 1, 2, 2],
              \<lparr>m_bpl = [long_bp, demo_bp 1 0 0 2 ZIO_COMPRESS_OFF], m_psize = 1536,
                m_lsize = 1024, m_cache_bp = Leaf 1, m_cache_buff = replicate 512 2\<rparr>,
              [(0, 1024, 512), (0, 512, 1024)])
   \<and> take 4 (drop 510 (replicate 1024 1 @ replicate 512 2)) = [1, 1, 1, 1 :: byte]"
proof -
  have lvl: "blk_lvl long_bp = 0" "blk_type long_bp = 1" "blk_lsize long_bp = 0"
      "blk_psize long_bp = 1"
    by (simp_all add: long_bp_def)
  have r1: "ReadToEnd (Suc (Suc (Suc 0))) (demo_env True)
         (BlockStream [long_bp, demo_bp 1 0 0 2 ZIO_COMPRESS_OFF]) []
       = Some (Inr (True, replicate 1024 1 @ replicate 512 2, [],
                    [(0, 1024, 512), (0, 512, 1024)]))"
    by (simp add: ReadToEnd_def BlockStream_def BlockReader_def Insert_def DMU_OT_NONE_def
        ReadNext_def Read_long Read_demo_OFF demo_disk_other poke_def resize_def lvl
        del: One_nat_def)
  have r2: "BlockFile_new (Suc (Suc (Suc 0))) (demo_env True)
         [long_bp, demo_bp 1 0 0 2 ZIO_COMPRESS_OFF] []
       = Some (Inr (\<lparr>m_bpl = [long_bp, demo_bp 1 0 0 2 ZIO_COMPRESS_OFF], m_psize = 1536,
                      m_lsize = 1024, m_cache_bp = Null, m_cache_buff = []\<rparr>, []))"
    by (simp add: BlockFile_new_def BlockReader_def Insert_def DMU_OT_NONE_def lvl shl9_def
        add64_def del: One_nat_def)
  have r3: "BlockFile_Read (demo_env True)
         \<lparr>m_bpl = [long_bp, demo_bp 1 0 0 2 ZIO_COMPRESS_OFF], m_psize = 1536,
           m_lsize = 1024, m_cache_bp = Null, m_cache_buff = []\<rparr> [9, 9, 9, 9] 4 510 []
       = Inr (True, [1, 1, 2, 2],
              \<lparr>m_bpl = [long_bp, demo_bp 1 0 0 2 ZIO_COMPRESS_OFF], m_psize = 1536,
                m_lsize = 1024, m_cache_bp = Leaf 1, m_cache_buff = replicate 512 2\<rparr>,
              [(0, 1024, 512), (0, 512, 1024)])"
    by (simp add: BlockFile_Read_def add64_def sub64_def refill_def Pool_Read_def Read_long
        Read_demo_OFF demo_disk_other peek_def poke_def Read_done_def ASSERT_def lvl
        replicate_2 extent_def size_bytes_def shl9_def)
  have r4: "take 4 (drop 510 (replicate 1024 1 @ replicate 512 2)) = [1, 1, 1, 1 :: byte]"
    by (simp add: replicate_4)
  have r5: "Read (demo_env True) (replicate 1024 1) (demo_bp 1 0 0 2 ZIO_COMPRESS_OFF)
      [(0, 1024, 512)] = Inr (True, replicate 512 2, [(0, 1024, 512), (0, 512, 1024)])"
    by (simp add: Read_demo_OFF demo_disk_other)
  from Read_long [of True "[]" "[]"] r5 r1 r2 r3 r4 show ?thesis by simp
qed

end
